theory Spec2Isabelle
  imports Complex_Main
begin

section \<open>The rating engine of \<open>app/matchmaker.py\<close>\<close>

text \<open>
  Python floats are read as real numbers: \<open>10 ** x\<close> is \<open>10 powr x\<close>, and rounding,
  overflow and underflow of IEEE doubles are outside this development. What the doubles
  do differently: the quotient \<open>a_rating / (a_rating + b_rating)\<close> rounds to exactly 1.0
  from a rating gap of about 6400, so that a swing with win-weight 1 becomes 0.0;
  \<open>10 ** x\<close> raises \<open>OverflowError\<close> for ratings above about 123000; and two deltas
  that are close can come out in either order. The theorems for the claims are therefore
  either evaluations at inputs where these effects are far below the quantities compared,
  or statements that do not depend on the arithmetic (which positions are paired, equal
  deltas, signs that are not strict). The configuration values \<open>score_turbulence\<close> and
  \<open>initial_score\<close> are parameters of the functions that read them (\<open>k\<close> and \<open>init\<close>);
  the code reads them with \<open>float(...)\<close> and accepts every value.
\<close>

subsection \<open>Outcomes and errors\<close>

text \<open>The members of \<open>cuwais.common.Outcome\<close> that the module uses.\<close>

datatype outcome = Win | Loss | Draw

text \<open>The exceptions the module raises or lets escape.\<close>

datatype error = AssertionError | ValueError | ZeroDivisionError | RequestException

subsection \<open>\<open>_calculate_delta_scores_pair\<close>\<close>

definition calculate_delta_scores_pair :: "real \<Rightarrow> real \<Rightarrow> real \<Rightarrow> real \<Rightarrow> real" where
  "calculate_delta_scores_pair k a_score b_score winner_weight =
     (let a_rating = 10 powr (a_score / 400);
          b_rating = 10 powr (b_score / 400);
          a_expected = a_rating / (a_rating + b_rating);
          delta = k * (winner_weight - a_expected)
      in delta)"

subsection \<open>\<open>_calculate_delta_scores\<close>\<close>

text \<open>
  The grouping loop: the three dictionaries keyed by outcome are functions on
  \<^typ>\<open>outcome\<close>, updated once per element of \<open>zip(outcomes, current_elos)\<close>.
\<close>

type_synonym groups = "(outcome \<Rightarrow> nat) \<times> (outcome \<Rightarrow> real) \<times> (outcome \<Rightarrow> real list)"

definition groups_init :: groups where
  "groups_init = ((\<lambda>o'. 0), (\<lambda>o'. 0), (\<lambda>o'. []))"

fun group_step :: "groups \<Rightarrow> outcome \<times> real \<Rightarrow> groups" where
  "group_step (counts, totals, group_elos) (outcome, elo) =
     (counts(outcome := counts outcome + 1),
      totals(outcome := totals outcome + elo),
      group_elos(outcome := group_elos outcome @ [elo]))"

definition group_loop :: "outcome list \<Rightarrow> real list \<Rightarrow> groups" where
  "group_loop outcomes current_elos = foldl group_step groups_init (zip outcomes current_elos)"

text \<open>The three inter-group swings; a pairing with an empty side stays at 0.\<close>

definition win_loss :: "real \<Rightarrow> groups \<Rightarrow> real" where
  "win_loss k g = (case g of (counts, totals, group_elos) \<Rightarrow>
     if counts Win > 0 \<and> counts Loss > 0
     then calculate_delta_scores_pair k (totals Win) (totals Loss) 1 else 0)"

definition win_draw :: "real \<Rightarrow> groups \<Rightarrow> real" where
  "win_draw k g = (case g of (counts, totals, group_elos) \<Rightarrow>
     if counts Win > 0 \<and> counts Draw > 0
     then calculate_delta_scores_pair k (totals Win) (totals Draw) 1 else 0)"

definition loss_draw :: "real \<Rightarrow> groups \<Rightarrow> real" where
  "loss_draw k g = (case g of (counts, totals, group_elos) \<Rightarrow>
     if counts Loss > 0 \<and> counts Draw > 0
     then calculate_delta_scores_pair k (totals Draw) (totals Loss) 1 else 0)"

text \<open>The outcome of the only team, when at most one group has members.\<close>

definition single_team_outcome :: "groups \<Rightarrow> outcome option" where
  "single_team_outcome g = (case g of (counts, totals, group_elos) \<Rightarrow>
     if counts Win = counts Loss \<and> counts Loss = 0 then Some Draw
     else if counts Win = counts Draw \<and> counts Draw = 0 then Some Loss
     else if counts Loss = counts Draw \<and> counts Draw = 0 then Some Win
     else None)"

definition single_team_elos :: "groups \<Rightarrow> real list" where
  "single_team_elos g = (case g of (counts, totals, group_elos) \<Rightarrow>
     (case single_team_outcome g of
        Some outcome \<Rightarrow> sort (group_elos outcome)
      | None \<Rightarrow> []))"

text \<open>\<open>list.index\<close>: the position of the first equal element, \<open>ValueError\<close> when there is none.\<close>

fun index :: "real list \<Rightarrow> real \<Rightarrow> nat option" where
  "index [] v = None"
| "index (x # xs) v = (if x = v then Some 0 else map_option Suc (index xs v))"

text \<open>Division of a float by a count: Python raises on a zero divisor.\<close>

definition divide_by_count :: "real \<Rightarrow> nat \<Rightarrow> error + real" where
  "divide_by_count x n = (if n = 0 then Inl ZeroDivisionError else Inr (x / real n))"

text \<open>The inter-group portion of one player's delta.\<close>

definition inter_group :: "real \<Rightarrow> groups \<Rightarrow> outcome \<Rightarrow> error + real" where
  "inter_group k g outcome = (case g of (counts, totals, group_elos) \<Rightarrow>
     (case outcome of
        Win \<Rightarrow> divide_by_count (win_loss k g + win_draw k g) (counts Win)
      | Loss \<Rightarrow> divide_by_count (- win_loss k g - loss_draw k g) (counts Loss)
      | Draw \<Rightarrow> divide_by_count (loss_draw k g - win_draw k g) (counts Draw)))"

text \<open>The intra-group portion, added for a member of the only team.\<close>

definition intra_group :: "real \<Rightarrow> groups \<Rightarrow> real \<Rightarrow> real \<Rightarrow> error + real" where
  "intra_group k g elo delta =
     (case index (single_team_elos g) elo of
        None \<Rightarrow> Inl ValueError
      | Some position_in_team \<Rightarrow>
          (let opponent_position = length (single_team_elos g) - position_in_team - 1;
               opponent_elo = single_team_elos g ! opponent_position
           in if opponent_position \<noteq> position_in_team
              then Inr (delta + calculate_delta_scores_pair k elo opponent_elo 0.5)
              else Inr delta))"

text \<open>The body of the player loop: the inter-group portion, then the intra-group portion.\<close>

definition player_delta :: "real \<Rightarrow> groups \<Rightarrow> outcome \<times> real \<Rightarrow> error + real" where
  "player_delta k g p = (case p of (outcome, elo) \<Rightarrow>
     (case inter_group k g outcome of
        Inl e \<Rightarrow> Inl e
      | Inr delta \<Rightarrow>
          if Some outcome = single_team_outcome g
          then intra_group k g elo delta
          else Inr delta))"

fun player_loop :: "real \<Rightarrow> groups \<Rightarrow> (outcome \<times> real) list \<Rightarrow> error + real list" where
  "player_loop k g [] = Inr []"
| "player_loop k g (p # ps) =
     (case player_delta k g p of
        Inl e \<Rightarrow> Inl e
      | Inr delta \<Rightarrow>
          (case player_loop k g ps of
             Inl e \<Rightarrow> Inl e
           | Inr deltas \<Rightarrow> Inr (delta # deltas)))"

definition player_deltas :: "real \<Rightarrow> outcome list \<Rightarrow> real list \<Rightarrow> error + real list" where
  "player_deltas k outcomes current_elos =
     player_loop k (group_loop outcomes current_elos) (zip outcomes current_elos)"

text \<open>\<open>math.isclose(a, b, rel_tol=1e-9, abs_tol=0.0)\<close> on finite values.\<close>

definition isclose :: "real \<Rightarrow> real \<Rightarrow> bool" where
  "isclose a b = (a = b \<or> \<bar>a - b\<bar> \<le> max (1 / 10 ^ 9 * max \<bar>a\<bar> \<bar>b\<bar>) 0)"

text \<open>The assertions at the end of the function, in their order.\<close>

definition two_player_check :: "real \<Rightarrow> outcome list \<Rightarrow> real list \<Rightarrow> real list \<Rightarrow> bool" where
  "two_player_check k outcomes current_elos deltas =
     (if length outcomes = 2 then
        (if outcomes ! 0 = outcomes ! 1 \<and> outcomes ! 1 = Draw
         then isclose (Max (set deltas))
                (calculate_delta_scores_pair k (Min (set current_elos)) (Max (set current_elos)) 0.5)
         else True) \<and>
        (if outcomes ! 0 \<noteq> outcomes ! 1
         then isclose (deltas ! 0)
                (calculate_delta_scores_pair k (current_elos ! 0) (current_elos ! 1)
                   (if outcomes ! 0 = Win then 1 else 0))
         else True)
      else True)"

definition calculate_delta_scores :: "real \<Rightarrow> outcome list \<Rightarrow> real list \<Rightarrow> error + real list" where
  "calculate_delta_scores k outcomes current_elos =
     (case player_deltas k outcomes current_elos of
        Inl e \<Rightarrow> Inl e
      | Inr deltas \<Rightarrow>
          if length deltas \<noteq> length outcomes then Inl AssertionError
          else if \<not> (- 0.000001 < sum_list deltas \<and> sum_list deltas < 0.000001) then Inl AssertionError
          else if \<not> two_player_check k outcomes current_elos deltas then Inl AssertionError
          else Inr deltas)"

section \<open>The store\<close>

text \<open>
  The tables of \<open>cuwais.database\<close>, with the columns the module reads and writes. A table
  is the list of its rows; \<open>sub_id\<close> is the primary key \<open>Submission.id\<close>, and a match is
  referred to by its position in the match table.
\<close>

record submission =
  sub_id :: nat
  user_id :: nat
  submission_date :: nat
  active :: bool
  files_hash :: string

record result_row =
  res_match :: nat
  res_submission_id :: nat
  res_outcome :: int
  healthy :: bool
  points_delta :: real
  player_id :: string
  prints :: string
  result_code :: int

record match_row =
  match_date :: nat
  recording :: string

record database =
  submissions :: "submission list"
  results :: "result_row list"
  matches :: "match_row list"

text \<open>The body the runner answers with: one entry per slot and the recording.\<close>

record submission_result =
  sr_outcome :: int
  sr_healthy :: bool
  sr_player_id :: string
  sr_printed :: string
  sr_result_code :: int

record run_result =
  rr_recording :: string
  submission_results :: "submission_result list"

subsection \<open>\<open>_get_all_latest_healthy_submissions\<close>\<close>

definition healthies :: "database \<Rightarrow> submission \<Rightarrow> nat" where
  "healthies db s = length [r \<leftarrow> results db. res_submission_id r = sub_id s \<and> healthy r]"

definition total :: "database \<Rightarrow> submission \<Rightarrow> nat" where
  "total db s = length [r \<leftarrow> results db. res_submission_id r = sub_id s]"

definition healthy_subq :: "database \<Rightarrow> (nat \<times> nat) list" where
  "healthy_subq db = [(sub_id s, healthies db s). s \<leftarrow> submissions db, 0 < healthies db s]"

definition most_recent_subq :: "database \<Rightarrow> (nat \<times> nat) list" where
  "most_recent_subq db =
     (let joined = [s \<leftarrow> submissions db. sub_id s \<in> fst ` set (healthy_subq db) \<and> active s]
      in [(u, Max (set [submission_date s. s \<leftarrow> joined, user_id s = u])).
            u \<leftarrow> remdups (map user_id joined)])"

definition total_results_subq :: "database \<Rightarrow> (nat \<times> nat) list" where
  "total_results_subq db = [(sub_id s, total db s). s \<leftarrow> submissions db, 0 < total db s]"

definition get_all_latest_healthy_submissions :: "database \<Rightarrow> (submission \<times> real) list" where
  "get_all_latest_healthy_submissions db =
     (let res = [(s, h, t).
                   s \<leftarrow> submissions db,
                   (i, h) \<leftarrow> healthy_subq db, sub_id s = i,
                   (j, t) \<leftarrow> total_results_subq db, sub_id s = j,
                   (u, maxdate) \<leftarrow> most_recent_subq db,
                   user_id s = u \<and> submission_date s = maxdate]
      in [(s, real h / real t). (s, h, t) \<leftarrow> res])"

subsection \<open>\<open>_get_all_untested_submissions\<close>\<close>

definition get_all_untested_submissions :: "database \<Rightarrow> submission list" where
  "get_all_untested_submissions db =
     [s \<leftarrow> submissions db. \<not> (\<exists>r \<in> set (results db). res_submission_id r = sub_id s)]"

subsection \<open>\<open>_get_elos\<close>\<close>

text \<open>
  The grouped subquery \<open>t1\<close>: submissions whose id is in \<open>submission_ids\<close>, joined with
  their results, grouped by owner, with the sum of \<open>points_delta\<close> of each group.
\<close>

definition elo_subq :: "database \<Rightarrow> nat list \<Rightarrow> (nat \<times> real) list" where
  "elo_subq db submission_ids =
     (let joined = [(s, r). s \<leftarrow> submissions db, sub_id s \<in> set submission_ids,
                            r \<leftarrow> results db, res_submission_id r = sub_id s]
      in [(u, sum_list [points_delta r. (s, r) \<leftarrow> joined, user_id s = u]).
            u \<leftarrow> remdups (map (\<lambda>(s, r). user_id s) joined)])"

definition elo_rows :: "database \<Rightarrow> nat list \<Rightarrow> (nat \<times> real) list" where
  "elo_rows db submission_ids =
     [(sub_id s, elo). s \<leftarrow> submissions db, (u, elo) \<leftarrow> elo_subq db submission_ids,
                       sub_id s \<in> set submission_ids \<and> user_id s = u]"

text \<open>A dictionary comprehension keeps the last value of a repeated key.\<close>

definition get_elos :: "real \<Rightarrow> database \<Rightarrow> nat list \<Rightarrow> real list" where
  "get_elos init db submission_ids =
     (let elo_lookup = map_of (rev (elo_rows db submission_ids))
      in [(case elo_lookup i of Some elo \<Rightarrow> elo | None \<Rightarrow> 0) + init. i \<leftarrow> submission_ids])"

text \<open>
  The derived rating of the specification: the initial score plus the rating deltas of
  all results of all submissions of a participant.
\<close>

definition derived_rating :: "real \<Rightarrow> database \<Rightarrow> nat \<Rightarrow> real" where
  "derived_rating init db u =
     init + sum_list [points_delta r. s \<leftarrow> submissions db, user_id s = u,
                                      r \<leftarrow> results db, res_submission_id r = sub_id s]"

text \<open>
  The sum \<open>_get_elos\<close> computes for a participant: the initial score plus the rating
  deltas of the results of those submissions of the participant whose id is listed.
\<close>

definition listed_rating :: "real \<Rightarrow> database \<Rightarrow> nat list \<Rightarrow> nat \<Rightarrow> real" where
  "listed_rating init db submission_ids u =
     init + sum_list [points_delta r. s \<leftarrow> submissions db, sub_id s \<in> set submission_ids \<and> user_id s = u,
                                      r \<leftarrow> results db, res_submission_id r = sub_id s]"

subsection \<open>\<open>_save_result\<close>\<close>

text \<open>
  \<open>Outcome(r["outcome"])\<close> looks an enumeration member up by value and raises
  \<open>ValueError\<close> when there is none; the values of the members are a parameter
  (\<open>outcome_of\<close>). The rating engine is a parameter of \<open>save_result_with\<close>, and
  \<open>save_result\<close> is the function of the module. \<open>now\<close> is the clock reading.
\<close>

fun outcomes_of :: "(int \<Rightarrow> outcome option) \<Rightarrow> submission_result list \<Rightarrow> error + outcome list" where
  "outcomes_of outcome_of [] = Inr []"
| "outcomes_of outcome_of (r # rs) =
     (case outcome_of (sr_outcome r) of
        None \<Rightarrow> Inl ValueError
      | Some v \<Rightarrow>
          (case outcomes_of outcome_of rs of
             Inl e \<Rightarrow> Inl e
           | Inr vs \<Rightarrow> Inr (v # vs)))"

definition new_result :: "nat \<Rightarrow> (nat \<times> submission_result) \<times> real \<Rightarrow> result_row" where
  "new_result m x = (case x of ((submission_id, submission_result), delta) \<Rightarrow>
     \<lparr>res_match = m,
      res_submission_id = submission_id,
      res_outcome = sr_outcome submission_result,
      healthy = sr_healthy submission_result,
      points_delta = delta,
      player_id = sr_player_id submission_result,
      prints = sr_printed submission_result,
      result_code = sr_result_code submission_result\<rparr>)"

definition commit_match :: "nat \<Rightarrow> database \<Rightarrow> nat list \<Rightarrow> run_result \<Rightarrow> real list \<Rightarrow> database" where
  "commit_match now db submission_ids result deltas =
     db\<lparr>matches := matches db @ [\<lparr>match_date = now, recording = rr_recording result\<rparr>],
        results := results db @
          map (new_result (length (matches db)))
            (zip (zip submission_ids (submission_results result)) deltas)\<rparr>"

definition save_result_with ::
  "(outcome list \<Rightarrow> real list \<Rightarrow> error + real list) \<Rightarrow> real \<Rightarrow> (int \<Rightarrow> outcome option) \<Rightarrow> nat \<Rightarrow>
   database \<Rightarrow> submission list \<Rightarrow> run_result \<Rightarrow> bool \<Rightarrow> error + database" where
  "save_result_with engine init outcome_of now db subs result update_scores =
     (let submission_ids = map sub_id subs in
      if \<not> length submission_ids = length (submission_results result) then Inl ValueError
      else if update_scores then
        (let elos = get_elos init db submission_ids in
         (case outcomes_of outcome_of (submission_results result) of
            Inl e \<Rightarrow> Inl e
          | Inr outcomes \<Rightarrow>
              (case engine outcomes elos of
                 Inl e \<Rightarrow> Inl e
               | Inr deltas \<Rightarrow> Inr (commit_match now db submission_ids result deltas))))
      else Inr (commit_match now db submission_ids result (replicate (length submission_ids) 0)))"

definition save_result ::
  "real \<Rightarrow> real \<Rightarrow> (int \<Rightarrow> outcome option) \<Rightarrow> nat \<Rightarrow>
   database \<Rightarrow> submission list \<Rightarrow> run_result \<Rightarrow> bool \<Rightarrow> error + database" where
  "save_result k = save_result_with (calculate_delta_scores k)"

subsection \<open>\<open>_run_match\<close>, \<open>_run_typical_match\<close> and \<open>_run_test_match\<close>\<close>

text \<open>
  The runner is a function from the list of file hashes to a status code and a body; the
  game mode and its options are fixed for a worker and are part of that function.
\<close>

type_synonym runner = "string list \<Rightarrow> nat \<times> run_result"

definition run_match :: "runner \<Rightarrow> submission list \<Rightarrow> error + run_result" where
  "run_match runner subs =
     (case runner (map files_hash subs) of (status_code, body) \<Rightarrow>
        if status_code \<noteq> 200 then Inl RequestException else Inr body)"

text \<open>
  \<open>i_submissions\<close> is the draw of \<open>numpy.random.choice\<close>: \<open>player_count\<close> distinct
  positions of the candidate list. The result is \<open>None\<close> where the function returns
  \<open>False\<close> before running a match.
\<close>

definition typical_submissions :: "nat list \<Rightarrow> int \<Rightarrow> database \<Rightarrow> submission list option" where
  "typical_submissions i_submissions player_count db =
     (if player_count > 0 then
        (let newest = get_all_latest_healthy_submissions db in
         if int (length newest) < player_count then None
         else (let newest_submissions = map fst newest
               in Some [newest_submissions ! i. i \<leftarrow> i_submissions]))
      else Some [])"

definition run_typical_match_with ::
  "(outcome list \<Rightarrow> real list \<Rightarrow> error + real list) \<Rightarrow> real \<Rightarrow> (int \<Rightarrow> outcome option) \<Rightarrow> nat \<Rightarrow>
   runner \<Rightarrow> nat list \<Rightarrow> int \<Rightarrow> database \<Rightarrow> error + bool \<times> database" where
  "run_typical_match_with engine init outcome_of now runner i_submissions player_count db =
     (case typical_submissions i_submissions player_count db of
        None \<Rightarrow> Inr (False, db)
      | Some subs \<Rightarrow>
          (case run_match runner subs of
             Inl e \<Rightarrow> Inl e
           | Inr result \<Rightarrow>
               (let update_scores = (True \<in> set (map sr_healthy (submission_results result)))
                in (case save_result_with engine init outcome_of now db subs result update_scores of
                      Inl e \<Rightarrow> Inl e
                    | Inr db' \<Rightarrow> Inr (True, db')))))"

definition run_typical_match ::
  "real \<Rightarrow> real \<Rightarrow> (int \<Rightarrow> outcome option) \<Rightarrow> nat \<Rightarrow>
   runner \<Rightarrow> nat list \<Rightarrow> int \<Rightarrow> database \<Rightarrow> error + bool \<times> database" where
  "run_typical_match k = run_typical_match_with (calculate_delta_scores k)"

text \<open>\<open>random.choice\<close> takes the element at a random position below the length.\<close>

definition test_submissions :: "nat \<Rightarrow> int \<Rightarrow> database \<Rightarrow> submission list option" where
  "test_submissions rnd player_count db =
     (if player_count > 0 then
        (let newest = get_all_untested_submissions db in
         if length newest = 0 then None
         else Some (replicate (nat player_count) (newest ! (rnd mod length newest))))
      else Some [])"

definition run_test_match_with ::
  "(outcome list \<Rightarrow> real list \<Rightarrow> error + real list) \<Rightarrow> real \<Rightarrow> (int \<Rightarrow> outcome option) \<Rightarrow> nat \<Rightarrow>
   runner \<Rightarrow> nat \<Rightarrow> int \<Rightarrow> database \<Rightarrow> error + bool \<times> database" where
  "run_test_match_with engine init outcome_of now runner rnd player_count db =
     (case test_submissions rnd player_count db of
        None \<Rightarrow> Inr (False, db)
      | Some subs \<Rightarrow>
          (case run_match runner subs of
             Inl e \<Rightarrow> Inl e
           | Inr result \<Rightarrow>
               (case save_result_with engine init outcome_of now db subs result False of
                  Inl e \<Rightarrow> Inl e
                | Inr db' \<Rightarrow> Inr (True, db'))))"

definition run_test_match ::
  "real \<Rightarrow> real \<Rightarrow> (int \<Rightarrow> outcome option) \<Rightarrow> nat \<Rightarrow>
   runner \<Rightarrow> nat \<Rightarrow> int \<Rightarrow> database \<Rightarrow> error + bool \<times> database" where
  "run_test_match k = run_test_match_with (calculate_delta_scores k)"

subsection \<open>The pacing of \<open>Matchmaker.run\<close>\<close>

text \<open>
  One pass of the loop body after \<open>_run_one\<close>: \<open>diff\<close> is the elapsed process time in
  seconds, \<open>penalty\<close> the value of \<open>random.randint(1, max(2, seconds_per_run))\<close> and
  \<open>jitter\<close> the value of \<open>random.random()\<close>. The statement under \<open>if not success\<close> is an
  expression whose value is dropped.
\<close>

definition sleep_duration :: "int \<Rightarrow> real \<Rightarrow> bool \<Rightarrow> int \<Rightarrow> real \<Rightarrow> real" where
  "sleep_duration seconds_per_run diff success penalty jitter =
     (let wait_time = real_of_int seconds_per_run - diff;
          dropped = (if \<not> success then wait_time + real_of_int penalty else wait_time);
          wait_time = wait_time + 0.05 * real_of_int seconds_per_run * (jitter - 0.5)
      in max 0.0 wait_time)"

text \<open>
  The duration the specification describes for a failed or skipped iteration: the
  remaining time floored at 0, plus the penalty, plus the jitter.
\<close>

definition specified_failure_sleep :: "int \<Rightarrow> real \<Rightarrow> int \<Rightarrow> real \<Rightarrow> real" where
  "specified_failure_sleep seconds_per_run diff penalty jitter =
     max 0 (real_of_int seconds_per_run - diff) + real_of_int penalty
       + 0.05 * real_of_int seconds_per_run * (jitter - 0.5)"

section \<open>An example store\<close>

text \<open>
  Participant 7 has an older submission 1 with a rated result and a newer submission 2
  with one unrated result; participant 8 has submission 3; participant 9 has the untested
  submission 4.
\<close>

definition history_db :: database where
  "history_db =
     \<lparr>submissions =
        [\<lparr>sub_id = 1, user_id = 7, submission_date = 1, active = True, files_hash = ''a''\<rparr>,
         \<lparr>sub_id = 2, user_id = 7, submission_date = 2, active = True, files_hash = ''b''\<rparr>,
         \<lparr>sub_id = 3, user_id = 8, submission_date = 1, active = True, files_hash = ''c''\<rparr>,
         \<lparr>sub_id = 4, user_id = 9, submission_date = 3, active = True, files_hash = ''d''\<rparr>],
      results =
        [\<lparr>res_match = 0, res_submission_id = 1, res_outcome = 1, healthy = True,
          points_delta = 10, player_id = ''p0'', prints = ''x'', result_code = 0\<rparr>,
         \<lparr>res_match = 0, res_submission_id = 3, res_outcome = 2, healthy = True,
          points_delta = - 10, player_id = ''p1'', prints = ''y'', result_code = 0\<rparr>,
         \<lparr>res_match = 1, res_submission_id = 2, res_outcome = 1, healthy = True,
          points_delta = 0, player_id = ''p0'', prints = ''z'', result_code = 0\<rparr>],
      matches =
        [\<lparr>match_date = 1, recording = ''m0''\<rparr>, \<lparr>match_date = 2, recording = ''m1''\<rparr>]\<rparr>"

text \<open>Two answers of a runner for two slots, and one value table for the outcomes.\<close>

definition crashed_slots :: run_result where
  "crashed_slots =
     \<lparr>rr_recording = ''rec'',
      submission_results =
        [\<lparr>sr_outcome = 1, sr_healthy = False, sr_player_id = ''p0'', sr_printed = ''x'', sr_result_code = 1\<rparr>,
         \<lparr>sr_outcome = 2, sr_healthy = False, sr_player_id = ''p1'', sr_printed = ''y'', sr_result_code = 1\<rparr>]\<rparr>"

definition played_slots :: run_result where
  "played_slots =
     \<lparr>rr_recording = ''rec'',
      submission_results =
        [\<lparr>sr_outcome = 1, sr_healthy = True, sr_player_id = ''p0'', sr_printed = ''x'', sr_result_code = 0\<rparr>,
         \<lparr>sr_outcome = 2, sr_healthy = False, sr_player_id = ''p1'', sr_printed = ''y'', sr_result_code = 1\<rparr>]\<rparr>"

definition outcome_values :: "int \<Rightarrow> outcome option" where
  "outcome_values n = (if n = 1 then Some Win else if n = 2 then Some Loss
                       else if n = 3 then Some Draw else None)"

section \<open>Properties of the rating engine\<close>

subsection \<open>The pairwise formula\<close>

lemma pair_unfold:
  "calculate_delta_scores_pair k a b w = k * (w - 10 powr (a / 400) / (10 powr (a / 400) + 10 powr (b / 400)))"
  by (simp add: calculate_delta_scores_pair_def Let_def)

lemma pair_half_antisym:
  "calculate_delta_scores_pair k a b (1/2) = - calculate_delta_scores_pair k b a (1/2)"
proof -
  define A :: real where "A = 10 powr (a / 400)"
  define B :: real where "B = 10 powr (b / 400)"
  have pos: "0 < A" "0 < B" by (simp_all add: A_def B_def)
  have "A + B \<noteq> 0" using pos by linarith
  then have "A / (A + B) + B / (A + B) = 1"
    by (simp add: add_divide_distrib [symmetric])
  then have F: "B / (B + A) = 1 - A / (A + B)"
    by (simp add: add.commute)
  have "k * (1/2 - A / (A + B)) = - (k * (1/2 - B / (B + A)))"
    unfolding F by (simp add: algebra_simps)
  then show ?thesis
    unfolding pair_unfold A_def B_def by simp
qed

lemma pair_zero_one:
  "calculate_delta_scores_pair k a b 0 = - calculate_delta_scores_pair k b a 1"
proof -
  define A :: real where "A = 10 powr (a / 400)"
  define B :: real where "B = 10 powr (b / 400)"
  have pos: "0 < A" "0 < B" by (simp_all add: A_def B_def)
  have "A + B \<noteq> 0" using pos by linarith
  then have "A / (A + B) + B / (A + B) = 1"
    by (simp add: add_divide_distrib [symmetric])
  then have F: "B / (B + A) = 1 - A / (A + B)"
    by (simp add: add.commute)
  have "k * (0 - A / (A + B)) = - (k * (1 - B / (B + A)))"
    unfolding F by simp
  then show ?thesis
    unfolding pair_unfold A_def B_def by simp
qed

lemma pair_half_same: "calculate_delta_scores_pair k a a (1/2) = 0"
  using pair_half_antisym [of k a a] by simp

lemma pair_divisor_pos: "0 < 10 powr (a / 400) + 10 powr (b / 400 :: real)"
  by (simp add: add_pos_pos)

lemma pair_win_pos:
  assumes "0 < k"
  shows "0 < calculate_delta_scores_pair k a b 1"
proof -
  define A :: real where "A = 10 powr (a / 400)"
  define B :: real where "B = 10 powr (b / 400)"
  have pos: "0 < A" "0 < B" by (simp_all add: A_def B_def)
  have "A < A + B" using pos by simp
  then have "A / (A + B) < 1" using pos by simp
  then have "0 < k * (1 - A / (A + B))" using assms by simp
  then show ?thesis unfolding pair_unfold A_def B_def by simp
qed

lemma expected_mono:
  fixes a b oa ob :: real
  assumes "a \<le> b" "ob \<le> oa"
  shows "10 powr (a / 400) / (10 powr (a / 400) + 10 powr (oa / 400))
       \<le> 10 powr (b / 400) / (10 powr (b / 400) + 10 powr (ob / 400))"
proof -
  define A :: real where "A = 10 powr (a / 400)"
  define B :: real where "B = 10 powr (b / 400)"
  define P :: real where "P = 10 powr (oa / 400)"
  define Q :: real where "Q = 10 powr (ob / 400)"
  have pos: "0 < A" "0 < B" "0 < P" "0 < Q" by (simp_all add: A_def B_def P_def Q_def)
  have AB: "A \<le> B" using assms(1) by (simp add: A_def B_def)
  have QP: "Q \<le> P" using assms(2) by (simp add: P_def Q_def)
  have "A * Q \<le> B * P" using AB QP pos by (simp add: mult_mono)
  then have "A * (B + Q) \<le> B * (A + P)" by (simp add: algebra_simps)
  then have "A / (A + P) \<le> B / (B + Q)" using pos by (simp add: field_simps)
  then show ?thesis unfolding A_def B_def P_def Q_def .
qed

lemma pair_half_mono:
  assumes "0 \<le> k" "a \<le> b" "ob \<le> oa"
  shows "calculate_delta_scores_pair k b ob (1/2) \<le> calculate_delta_scores_pair k a oa (1/2)"
  unfolding pair_unfold using expected_mono [OF assms(2,3)] assms(1)
  by (simp add: mult_left_mono)

subsection \<open>The grouping pass and the player pass\<close>

lemma foldl_group_step:
  "foldl group_step (c, t, e) ps =
     (\<lambda>v. c v + length [p \<leftarrow> ps. fst p = v],
      \<lambda>v. t v + sum_list (map snd [p \<leftarrow> ps. fst p = v]),
      \<lambda>v. e v @ map snd [p \<leftarrow> ps. fst p = v])"
proof (induction ps arbitrary: c t e)
  case Nil
  show ?case by simp
next
  case (Cons p ps)
  obtain w x where p: "p = (w, x)" by (cases p)
  show ?case
    unfolding p by (simp add: Cons.IH fun_eq_iff)
qed

lemma group_loop_eq:
  "group_loop outcomes current_elos =
     (\<lambda>v. length [p \<leftarrow> zip outcomes current_elos. fst p = v],
      \<lambda>v. sum_list (map snd [p \<leftarrow> zip outcomes current_elos. fst p = v]),
      \<lambda>v. map snd [p \<leftarrow> zip outcomes current_elos. fst p = v])"
  by (simp add: group_loop_def groups_init_def foldl_group_step)

lemma player_loop_Inr:
  "player_loop k g ps = Inr ds \<Longrightarrow>
     length ds = length ps \<and> (\<forall>n < length ps. player_delta k g (ps ! n) = Inr (ds ! n))"
proof (induction ps arbitrary: ds)
  case Nil
  then show ?case by simp
next
  case (Cons p ps)
  from Cons.prems obtain d ds' where
    d: "player_delta k g p = Inr d" and ds': "player_loop k g ps = Inr ds'" and eq: "ds = d # ds'"
    by (auto split: sum.splits)
  from Cons.IH [OF ds'] have
    len: "length ds' = length ps" and
    nth: "\<And>n. n < length ps \<Longrightarrow> player_delta k g (ps ! n) = Inr (ds' ! n)"
    by simp_all
  show ?case
    using d len nth by (auto simp: eq nth_Cons split: nat.splits)
qed

subsection \<open>Two players\<close>

lemmas engine_defs =
  calculate_delta_scores_def player_deltas_def group_loop_def groups_init_def player_delta_def
  inter_group_def intra_group_def single_team_outcome_def single_team_elos_def
  win_loss_def win_draw_def loss_draw_def divide_by_count_def two_player_check_def

lemma two_player_win_loss:
  "calculate_delta_scores k [Win, Loss] [ra, rb] =
     Inr [calculate_delta_scores_pair k ra rb 1, - calculate_delta_scores_pair k ra rb 1]"
  by (simp add: engine_defs isclose_def)

lemma two_player_loss_win:
  "calculate_delta_scores k [Loss, Win] [ra, rb] =
     Inr [calculate_delta_scores_pair k ra rb 0, - calculate_delta_scores_pair k ra rb 0]"
  by (simp add: engine_defs isclose_def pair_zero_one [of k ra rb])

lemma two_player_win_draw:
  "calculate_delta_scores k [Win, Draw] [ra, rb] =
     Inr [calculate_delta_scores_pair k ra rb 1, - calculate_delta_scores_pair k ra rb 1]"
  by (simp add: engine_defs isclose_def)

lemma two_player_draw_win:
  "calculate_delta_scores k [Draw, Win] [ra, rb] =
     Inr [calculate_delta_scores_pair k ra rb 0, - calculate_delta_scores_pair k ra rb 0]"
  by (simp add: engine_defs isclose_def pair_zero_one [of k ra rb])


lemma two_player_draw_loss_deltas:
  "player_deltas k [Draw, Loss] [ra, rb] =
     Inr [calculate_delta_scores_pair k ra rb 1, - calculate_delta_scores_pair k ra rb 1]"
  by (simp add: engine_defs)

lemma expected_bounds:
  "0 < 10 powr (a / 400) / (10 powr (a / 400) + 10 powr (b / 400))"
  "10 powr (a / 400) / (10 powr (a / 400) + 10 powr (b / 400)) < (1::real)"
proof -
  define A :: real where "A = 10 powr (a / 400)"
  define B :: real where "B = 10 powr (b / 400)"
  have pos: "0 < A" "0 < B" by (simp_all add: A_def B_def)
  have "0 < A / (A + B)" using pos by simp
  then show "0 < 10 powr (a / 400) / (10 powr (a / 400) + 10 powr (b / 400))"
    unfolding A_def B_def .
  have "A < A + B" using pos by simp
  then have "A / (A + B) < 1" using pos by simp
  then show "10 powr (a / 400) / (10 powr (a / 400) + 10 powr (b / 400)) < (1::real)"
    unfolding A_def B_def .
qed


lemma not_isclose_win_weights:
  assumes "k \<noteq> 0"
  shows "\<not> isclose (calculate_delta_scores_pair k ra rb 1) (calculate_delta_scores_pair k ra rb 0)"
proof -
  define E :: real where "E = 10 powr (ra / 400) / (10 powr (ra / 400) + 10 powr (rb / 400))"
  have E: "0 < E" "E < 1" using expected_bounds [of ra rb] by (simp_all add: E_def)
  have a: "calculate_delta_scores_pair k ra rb 1 = k * (1 - E)"
    and b: "calculate_delta_scores_pair k ra rb 0 = k * (0 - E)"
    by (simp_all add: pair_unfold E_def)
  have diff: "\<bar>k * (1 - E) - k * (0 - E)\<bar> = \<bar>k\<bar>" by (simp add: algebra_simps)
  have abs_a: "\<bar>k * (1 - E)\<bar> = \<bar>k\<bar> * (1 - E)" using E by (simp add: abs_mult)
  have abs_b: "\<bar>k * (0 - E)\<bar> = \<bar>k\<bar> * E" using E by (simp add: abs_mult)
  have kpos: "0 < \<bar>k\<bar>" using assms by simp
  define M :: real where "M = max \<bar>k * (1 - E)\<bar> \<bar>k * (0 - E)\<bar>"
  have lt: "\<bar>k\<bar> * (1 - E) < \<bar>k\<bar>" "\<bar>k\<bar> * E < \<bar>k\<bar>" using kpos E by simp_all
  have m: "M < \<bar>k\<bar>" unfolding M_def abs_a abs_b using lt by (simp only: max_less_iff_conj)
  have m0: "0 \<le> M" unfolding M_def by (rule max.coboundedI1) (rule abs_ge_zero)
  have "1 / 10 ^ 9 * M \<le> 1 * M" using m0 by (intro mult_right_mono) simp_all
  then have "max (1 / 10 ^ 9 * M) 0 < \<bar>k\<bar>" using m kpos by simp
  then have "\<not> \<bar>k\<bar> \<le> max (1 / 10 ^ 9 * M) 0" by (simp only: not_le)
  then have "\<not> \<bar>k * (1 - E) - k * (0 - E)\<bar> \<le> max (1 / 10 ^ 9 * M) 0"
    unfolding diff .
  then have "\<not> \<bar>k * (1 - E) - k * (0 - E)\<bar>
      \<le> max (1 / 10 ^ 9 * max \<bar>k * (1 - E)\<bar> \<bar>k * (0 - E)\<bar>) 0"
    unfolding M_def .
  moreover have "k * (1 - E) \<noteq> k * (0 - E)" using assms by (simp add: algebra_simps)
  ultimately show ?thesis unfolding isclose_def a b by blast
qed

lemma two_player_draw_loss:
  assumes "k \<noteq> 0"
  shows "calculate_delta_scores k [Draw, Loss] [ra, rb] = Inl AssertionError"
  using not_isclose_win_weights [OF assms, of ra rb]
  by (simp add: calculate_delta_scores_def two_player_draw_loss_deltas two_player_check_def)

subsection \<open>The only team\<close>

lemma index_Some:
  "index xs v = Some p \<Longrightarrow> p < length xs \<and> xs ! p = v"
proof (induction xs arbitrary: p)
  case Nil
  then show ?case by simp
next
  case (Cons x xs)
  show ?case
  proof (cases "x = v")
    case True
    with Cons.prems show ?thesis by simp
  next
    case False
    with Cons.prems obtain p' where p': "index xs v = Some p'" and p: "p = Suc p'"
      by auto
    from Cons.IH [OF p'] show ?thesis by (simp add: p)
  qed
qed

lemma index_sorted_less:
  assumes "sorted xs" "index xs a = Some p" "index xs b = Some q" "a < b"
  shows "p < q"
proof (rule ccontr)
  assume "\<not> p < q"
  then have "q \<le> p" by simp
  moreover have "p < length xs" "xs ! p = a" "xs ! q = b"
    using index_Some [OF assms(2)] index_Some [OF assms(3)] by simp_all
  ultimately have "b \<le> a" using sorted_nth_mono [OF assms(1), of q p] by simp
  with assms(4) show False by simp
qed

lemma single_team_elos_sorted: "sorted (single_team_elos g)"
  by (cases g) (simp add: single_team_elos_def split: option.splits)

lemma intra_group_Inr:
  assumes "intra_group k g e x = Inr d"
  shows "\<exists>p. index (single_team_elos g) e = Some p \<and>
           d = x + calculate_delta_scores_pair k e
                     (single_team_elos g ! (length (single_team_elos g) - p - 1)) (1/2)"
proof (cases "index (single_team_elos g) e")
  case None
  with assms show ?thesis by (simp add: intra_group_def)
next
  case (Some p)
  have e: "single_team_elos g ! p = e" using index_Some [OF Some] by simp
  show ?thesis
  proof (cases "length (single_team_elos g) - p - 1 = p")
    case True
    then have "d = x" using assms Some by (simp add: intra_group_def Let_def)
    moreover have "calculate_delta_scores_pair k e
        (single_team_elos g ! (length (single_team_elos g) - p - 1)) (1/2) = 0"
      unfolding True e by (rule pair_half_same)
    ultimately show ?thesis using Some by simp
  next
    case False
    then show ?thesis using assms Some by (simp add: intra_group_def Let_def)
  qed
qed

lemma calculate_delta_scores_Inr:
  assumes "calculate_delta_scores k outcomes current_elos = Inr ds"
  shows "player_deltas k outcomes current_elos = Inr ds"
    and "length ds = length outcomes"
    and "- 0.000001 < sum_list ds" and "sum_list ds < 0.000001"
    and "two_player_check k outcomes current_elos ds"
  using assms
  by (auto simp: calculate_delta_scores_def split: sum.splits if_splits)

lemma player_delta_nth:
  assumes "calculate_delta_scores k outcomes current_elos = Inr ds" "i < length outcomes"
  shows "player_delta k (group_loop outcomes current_elos) (outcomes ! i, current_elos ! i) = Inr (ds ! i)"
proof -
  let ?ps = "zip outcomes current_elos"
  have loop: "player_loop k (group_loop outcomes current_elos) ?ps = Inr ds"
    using calculate_delta_scores_Inr(1) [OF assms(1)] by (simp add: player_deltas_def)
  have len: "length ?ps = length outcomes"
    using player_loop_Inr [OF loop] calculate_delta_scores_Inr(2) [OF assms(1)] by simp
  then have i: "i < length ?ps" using assms(2) by simp
  then have "?ps ! i = (outcomes ! i, current_elos ! i)" by simp
  then show ?thesis using player_loop_Inr [OF loop] i by auto
qed


lemma group_count:
  assumes "length outcomes = length current_elos"
  shows "length [p \<leftarrow> zip outcomes current_elos. fst p = x] = length [v \<leftarrow> outcomes. v = x]"
proof -
  have "map fst [p \<leftarrow> zip outcomes current_elos. fst p = x]
      = [v \<leftarrow> map fst (zip outcomes current_elos). v = x]"
    by (simp add: filter_map comp_def)
  also have "map fst (zip outcomes current_elos) = outcomes" using assms by simp
  finally show ?thesis by (metis length_map)
qed

lemma member_count_pos: "x \<in> set xs \<Longrightarrow> 0 < length [v \<leftarrow> xs. v = x]"
  by (induction xs) auto

subsection \<open>Several teams\<close>

lemma player_loop_map:
  assumes "\<And>p. p \<in> set ps \<Longrightarrow> player_delta k g p = Inr (f p)"
  shows "player_loop k g ps = Inr (map f ps)"
  using assms by (induction ps) simp_all

lemma sum_by_outcome:
  fixes h :: "outcome \<Rightarrow> real"
  shows "sum_list (map h outcomes) =
           real (length [v \<leftarrow> outcomes. v = Win]) * h Win
         + real (length [v \<leftarrow> outcomes. v = Loss]) * h Loss
         + real (length [v \<leftarrow> outcomes. v = Draw]) * h Draw"
proof (induction outcomes)
  case Nil
  show ?case by simp
next
  case (Cons v outcomes)
  show ?case by (cases v) (simp_all add: Cons.IH algebra_simps)
qed

lemma group_counts:
  assumes "length outcomes = length current_elos"
  shows "fst (group_loop outcomes current_elos) v = length [x \<leftarrow> outcomes. x = v]"
  by (simp add: group_loop_eq group_count [OF assms])

lemma inter_group_share:
  assumes len: "length outcomes = length current_elos" and v: "v \<in> set outcomes"
  shows "inter_group k (group_loop outcomes current_elos) v =
           Inr ((case v of
                   Win \<Rightarrow> win_loss k (group_loop outcomes current_elos)
                          + win_draw k (group_loop outcomes current_elos)
                 | Loss \<Rightarrow> - win_loss k (group_loop outcomes current_elos)
                           - loss_draw k (group_loop outcomes current_elos)
                 | Draw \<Rightarrow> loss_draw k (group_loop outcomes current_elos)
                           - win_draw k (group_loop outcomes current_elos))
                / real (length [x \<leftarrow> outcomes. x = v]))"
proof -
  have "0 < length [x \<leftarrow> outcomes. x = v]" by (rule member_count_pos [OF v])
  then show ?thesis
    by (cases v)
       (simp_all add: inter_group_def divide_by_count_def group_loop_eq group_count [OF len])
qed

lemma swings_of_empty_groups:
  assumes len: "length outcomes = length current_elos"
  shows "length [x \<leftarrow> outcomes. x = Win] = 0 \<Longrightarrow>
           win_loss k (group_loop outcomes current_elos) = 0
         \<and> win_draw k (group_loop outcomes current_elos) = 0"
    and "length [x \<leftarrow> outcomes. x = Loss] = 0 \<Longrightarrow>
           win_loss k (group_loop outcomes current_elos) = 0
         \<and> loss_draw k (group_loop outcomes current_elos) = 0"
    and "length [x \<leftarrow> outcomes. x = Draw] = 0 \<Longrightarrow>
           win_draw k (group_loop outcomes current_elos) = 0
         \<and> loss_draw k (group_loop outcomes current_elos) = 0"
  by (simp_all add: win_loss_def win_draw_def loss_draw_def group_loop_eq group_count [OF len])

lemma shares_sum_zero:
  assumes len: "length outcomes = length current_elos"
  shows "sum_list (map (\<lambda>v. (case v of
                   Win \<Rightarrow> win_loss k (group_loop outcomes current_elos)
                          + win_draw k (group_loop outcomes current_elos)
                 | Loss \<Rightarrow> - win_loss k (group_loop outcomes current_elos)
                           - loss_draw k (group_loop outcomes current_elos)
                 | Draw \<Rightarrow> loss_draw k (group_loop outcomes current_elos)
                           - win_draw k (group_loop outcomes current_elos))
                / real (length [x \<leftarrow> outcomes. x = v])) outcomes) = 0"
proof -
  let ?g = "group_loop outcomes current_elos"
  let ?n = "\<lambda>v. length [x \<leftarrow> outcomes. x = v]"
  have w: "real (?n Win) * ((win_loss k ?g + win_draw k ?g) / real (?n Win))
             = win_loss k ?g + win_draw k ?g"
    using swings_of_empty_groups(1) [OF len, of k] by (cases "?n Win = 0") simp_all
  have l: "real (?n Loss) * ((- win_loss k ?g - loss_draw k ?g) / real (?n Loss))
             = - win_loss k ?g - loss_draw k ?g"
    using swings_of_empty_groups(2) [OF len, of k] by (cases "?n Loss = 0") simp_all
  have d: "real (?n Draw) * ((loss_draw k ?g - win_draw k ?g) / real (?n Draw))
             = loss_draw k ?g - win_draw k ?g"
    using swings_of_empty_groups(3) [OF len, of k] by (cases "?n Draw = 0") simp_all
  show ?thesis
    unfolding sum_by_outcome by (simp only: outcome.case w l d)
qed

lemma several_groups_deltas:
  assumes len: "length outcomes = length current_elos"
    and sto: "single_team_outcome (group_loop outcomes current_elos) = None"
  shows "player_deltas k outcomes current_elos =
           Inr (map (\<lambda>v. (case v of
                   Win \<Rightarrow> win_loss k (group_loop outcomes current_elos)
                          + win_draw k (group_loop outcomes current_elos)
                 | Loss \<Rightarrow> - win_loss k (group_loop outcomes current_elos)
                           - loss_draw k (group_loop outcomes current_elos)
                 | Draw \<Rightarrow> loss_draw k (group_loop outcomes current_elos)
                           - win_draw k (group_loop outcomes current_elos))
                / real (length [x \<leftarrow> outcomes. x = v])) outcomes)"
proof -
  let ?g = "group_loop outcomes current_elos"
  let ?share = "\<lambda>v. (case v of
                   Win \<Rightarrow> win_loss k ?g + win_draw k ?g
                 | Loss \<Rightarrow> - win_loss k ?g - loss_draw k ?g
                 | Draw \<Rightarrow> loss_draw k ?g - win_draw k ?g)
                / real (length [x \<leftarrow> outcomes. x = v])"
  have "player_delta k ?g p = Inr (?share (fst p))" if "p \<in> set (zip outcomes current_elos)" for p
  proof -
    obtain v e where p: "p = (v, e)" by (cases p)
    with that have "v \<in> set outcomes" by (auto dest: set_zip_leftD)
    from inter_group_share [OF len this, of k] show ?thesis
      by (simp add: p player_delta_def sto)
  qed
  then have "player_loop k ?g (zip outcomes current_elos)
      = Inr (map (\<lambda>p. ?share (fst p)) (zip outcomes current_elos))"
    by (rule player_loop_map)
  moreover have "map (\<lambda>p. ?share (fst p)) (zip outcomes current_elos)
      = map ?share (map fst (zip outcomes current_elos))"
    by (simp add: comp_def)
  moreover have "map fst (zip outcomes current_elos) = outcomes" using len by simp
  ultimately show ?thesis by (simp only: player_deltas_def)
qed

lemma several_groups_zero_sum:
  assumes len: "length outcomes = length current_elos"
    and sto: "single_team_outcome (group_loop outcomes current_elos) = None"
    and n: "length outcomes \<noteq> 2"
  shows "\<exists>deltas. calculate_delta_scores k outcomes current_elos = Inr deltas
           \<and> length deltas = length outcomes \<and> sum_list deltas = 0"
proof -
  let ?ds = "map (\<lambda>v. (case v of
                   Win \<Rightarrow> win_loss k (group_loop outcomes current_elos)
                          + win_draw k (group_loop outcomes current_elos)
                 | Loss \<Rightarrow> - win_loss k (group_loop outcomes current_elos)
                           - loss_draw k (group_loop outcomes current_elos)
                 | Draw \<Rightarrow> loss_draw k (group_loop outcomes current_elos)
                           - win_draw k (group_loop outcomes current_elos))
                / real (length [x \<leftarrow> outcomes. x = v])) outcomes"
  have d: "player_deltas k outcomes current_elos = Inr ?ds"
    by (rule several_groups_deltas [OF len sto])
  have s: "sum_list ?ds = 0" by (rule shares_sum_zero [OF len])
  have "calculate_delta_scores k outcomes current_elos = Inr ?ds"
    unfolding calculate_delta_scores_def d using n by (simp add: s two_player_check_def)
  then show ?thesis using s by simp
qed

subsection \<open>One team with pairwise distinct ratings\<close>

lemma two_player_draw_draw:
  assumes "0 \<le> k"
  shows "calculate_delta_scores k [Draw, Draw] [ra, rb] =
     Inr [calculate_delta_scores_pair k ra rb (1/2), - calculate_delta_scores_pair k ra rb (1/2)]"
proof -
  have sign: "0 \<le> calculate_delta_scores_pair k a b (1/2)" if "a \<le> b" for a b
    using pair_half_mono [OF assms that order_refl, of b] by (simp add: pair_half_same)
  show ?thesis
  proof (cases "ra \<le> rb")
    case True
    have d: "player_deltas k [Draw, Draw] [ra, rb] =
       Inr [calculate_delta_scores_pair k ra rb (1/2), - calculate_delta_scores_pair k ra rb (1/2)]"
      using True
      by (simp add: player_deltas_def group_loop_def groups_init_def player_delta_def
          inter_group_def intra_group_def single_team_outcome_def single_team_elos_def
          win_loss_def win_draw_def loss_draw_def divide_by_count_def
          pair_half_antisym [of k rb ra] pair_half_same)
    show ?thesis
      unfolding calculate_delta_scores_def d using True sign [OF True]
      by (simp add: two_player_check_def isclose_def max_def min_def)
  next
    case False
    then have le: "rb \<le> ra" by simp
    have d: "player_deltas k [Draw, Draw] [ra, rb] =
       Inr [calculate_delta_scores_pair k ra rb (1/2), - calculate_delta_scores_pair k ra rb (1/2)]"
      using False
      by (simp add: player_deltas_def group_loop_def groups_init_def player_delta_def
          inter_group_def intra_group_def single_team_outcome_def single_team_elos_def
          win_loss_def win_draw_def loss_draw_def divide_by_count_def
          pair_half_antisym [of k rb ra] pair_half_same)
    show ?thesis
      unfolding calculate_delta_scores_def d using False sign [OF le]
      by (simp add: two_player_check_def isclose_def max_def min_def pair_half_antisym [of k ra rb])
  qed
qed

lemma index_member:
  "v \<in> set xs \<Longrightarrow> \<exists>p. index xs v = Some p"
proof (induction xs)
  case Nil
  then show ?case by simp
next
  case (Cons x xs)
  show ?case
  proof (cases "x = v")
    case True
    then show ?thesis by simp
  next
    case False
    with Cons.prems have "v \<in> set xs" by simp
    from Cons.IH [OF this] obtain p where "index xs v = Some p" ..
    with False show ?thesis by simp
  qed
qed

lemma index_nth_distinct:
  "distinct xs \<Longrightarrow> i < length xs \<Longrightarrow> index xs (xs ! i) = Some i"
proof (induction xs arbitrary: i)
  case Nil
  then show ?case by simp
next
  case (Cons x xs)
  show ?case
  proof (cases i)
    case 0
    then show ?thesis by simp
  next
    case (Suc j)
    with Cons.prems have j: "j < length xs" and d: "distinct xs" and x: "x \<notin> set xs" by simp_all
    have "xs ! j \<in> set xs" using j by (rule nth_mem)
    with x have "x \<noteq> xs ! j" by auto
    then show ?thesis using Cons.IH [OF d j] by (simp add: Suc)
  qed
qed

lemma mirror_sum_zero:
  fixes h :: "nat \<Rightarrow> nat \<Rightarrow> real"
  assumes anti: "\<And>i j. i < n \<Longrightarrow> j < n \<Longrightarrow> h i j = - h j i"
  shows "(\<Sum>i<n. h i (n - Suc i)) = 0"
proof -
  define H where "H i = h i (n - Suc i)" for i
  have flip: "H (n - Suc i) = - H i" if "i < n" for i
  proof -
    have mid: "n - Suc (n - Suc i) = i" using that by arith
    have lt: "n - Suc i < n" using that by arith
    have "H (n - Suc i) = h (n - Suc i) i" unfolding H_def mid ..
    also have "\<dots> = - h i (n - Suc i)" by (rule anti [OF lt that])
    finally show ?thesis unfolding H_def .
  qed
  have "(\<Sum>i<n. H (n - Suc i)) = (\<Sum>i<n. H i)" by (rule sum.nat_diff_reindex)
  moreover have "(\<Sum>i<n. H (n - Suc i)) = (\<Sum>i<n. - H i)"
    by (rule sum.cong [OF refl]) (simp add: flip)
  moreover have "(\<Sum>i<n. - H i) = - (\<Sum>i<n. H i)" by (rule sum_negf)
  ultimately have "(\<Sum>i<n. H i) = - (\<Sum>i<n. H i)" by (simp only:)
  then have "(\<Sum>i<n. H i) = 0" by arith
  then show ?thesis unfolding H_def .
qed

lemma only_team_groups:
  assumes len: "length outcomes = length current_elos"
    and one: "set outcomes \<subseteq> {w}" and ne: "outcomes \<noteq> []"
  shows "single_team_outcome (group_loop outcomes current_elos) = Some w"
    and "single_team_elos (group_loop outcomes current_elos) = sort current_elos"
    and "inter_group k (group_loop outcomes current_elos) w = Inr 0"
proof -
  have mem: "x = w" if "x \<in> set outcomes" for x using one that by auto
  have all: "[x \<leftarrow> outcomes. x = w] = outcomes" by (rule filter_True) (simp add: mem)
  have other: "[x \<leftarrow> outcomes. x = v] = []" if "v \<noteq> w" for v
    unfolding filter_empty_conv using mem that by auto
  have n: "0 < length outcomes" using ne by simp
  have cw: "fst (group_loop outcomes current_elos) w = length outcomes"
    by (simp add: group_counts [OF len] all)
  have co: "fst (group_loop outcomes current_elos) v = 0" if "v \<noteq> w" for v
    by (simp add: group_counts [OF len] other [OF that])
  obtain counts totals group_elos where g: "group_loop outcomes current_elos = (counts, totals, group_elos)"
    by (cases "group_loop outcomes current_elos")
  have cw': "counts w = length outcomes" using cw by (simp add: g)
  have co': "counts v = 0" if "v \<noteq> w" for v using co [OF that] by (simp add: g)
  show sto: "single_team_outcome (group_loop outcomes current_elos) = Some w"
    using n cw' co' [of Win] co' [of Loss] co' [of Draw]
    by (cases w) (simp_all add: g single_team_outcome_def)
  have "map snd [p \<leftarrow> zip outcomes current_elos. fst p = w] = current_elos"
  proof -
    have "fst p = w" if "p \<in> set (zip outcomes current_elos)" for p
    proof -
      obtain v e where p: "p = (v, e)" by (cases p)
      with that have "v \<in> set outcomes" by (auto dest: set_zip_leftD)
      then show ?thesis using mem p by simp
    qed
    then have "[p \<leftarrow> zip outcomes current_elos. fst p = w] = zip outcomes current_elos"
      by (simp add: filter_id_conv)
    then show ?thesis using len by simp
  qed
  then have ge: "group_elos w = current_elos" using g unfolding group_loop_eq by auto
  show "single_team_elos (group_loop outcomes current_elos) = sort current_elos"
    using sto ge by (simp add: single_team_elos_def g)
  have two: "counts Win = 0 \<and> counts Loss = 0 \<or> counts Win = 0 \<and> counts Draw = 0
      \<or> counts Loss = 0 \<and> counts Draw = 0"
    using co' [of Win] co' [of Loss] co' [of Draw] by (cases w) simp_all
  have z1: "win_loss k (counts, totals, group_elos) = 0"
    using two by (auto simp: win_loss_def)
  have z2: "win_draw k (counts, totals, group_elos) = 0"
    using two by (auto simp: win_draw_def)
  have z3: "loss_draw k (counts, totals, group_elos) = 0"
    using two by (auto simp: loss_draw_def)
  note z = z1 z2 z3
  show "inter_group k (group_loop outcomes current_elos) w = Inr 0"
    using n cw' by (cases w) (simp_all add: g inter_group_def divide_by_count_def z)
qed

lemma intra_group_Some:
  assumes "index (single_team_elos g) e = Some q"
  shows "intra_group k g e x =
           Inr (x + calculate_delta_scores_pair k e
                      (single_team_elos g ! (length (single_team_elos g) - Suc q)) (1/2))"
proof (cases "length (single_team_elos g) - q - 1 = q")
  case True
  have e: "single_team_elos g ! q = e" using index_Some [OF assms] by simp
  have m: "length (single_team_elos g) - Suc q = q" using True by simp
  have "calculate_delta_scores_pair k e (single_team_elos g ! (length (single_team_elos g) - Suc q)) (1/2) = 0"
    unfolding m e by (rule pair_half_same)
  then show ?thesis using assms True by (simp add: intra_group_def Let_def)
next
  case False
  then show ?thesis using assms by (simp add: intra_group_def Let_def)
qed

lemma only_team_deltas:
  assumes len: "length outcomes = length current_elos"
    and one: "set outcomes \<subseteq> {w}" and ne: "outcomes \<noteq> []"
  shows "player_deltas k outcomes current_elos =
           Inr (map (\<lambda>e. calculate_delta_scores_pair k e
                            (sort current_elos !
                               (length current_elos - Suc (the (index (sort current_elos) e)))) (1/2))
                  current_elos)"
proof -
  let ?g = "group_loop outcomes current_elos"
  let ?s = "sort current_elos"
  let ?G = "\<lambda>e. calculate_delta_scores_pair k e (?s ! (length current_elos - Suc (the (index ?s e)))) (1/2)"
  note team = only_team_groups [OF len one ne]
  have "player_delta k ?g p = Inr (?G (snd p))" if "p \<in> set (zip outcomes current_elos)" for p
  proof -
    obtain v e where p: "p = (v, e)" by (cases p)
    with that have v: "v \<in> set outcomes" and e: "e \<in> set current_elos"
      by (auto dest: set_zip_leftD set_zip_rightD)
    have vw: "v = w" using v one by auto
    from e have "e \<in> set ?s" by simp
    then obtain q where q: "index ?s e = Some q" using index_member by blast
    have "intra_group k ?g e 0 = Inr (0 + calculate_delta_scores_pair k e (?s ! (length ?s - Suc q)) (1/2))"
      using intra_group_Some [of ?g e q k 0] q by (simp only: team(2))
    then show ?thesis
      by (simp add: p vw player_delta_def team(1) team(3) q)
  qed
  then have "player_loop k ?g (zip outcomes current_elos)
      = Inr (map (\<lambda>p. ?G (snd p)) (zip outcomes current_elos))"
    by (rule player_loop_map)
  moreover have "map (\<lambda>p. ?G (snd p)) (zip outcomes current_elos)
      = map ?G (map snd (zip outcomes current_elos))"
    by (simp add: comp_def)
  moreover have "map snd (zip outcomes current_elos) = current_elos" using len by simp
  ultimately show ?thesis by (simp only: player_deltas_def)
qed

lemma mirrored_deltas_sum_zero:
  assumes dist: "distinct current_elos"
  shows "sum_list (map (\<lambda>e. calculate_delta_scores_pair k e
                            (sort current_elos !
                               (length current_elos - Suc (the (index (sort current_elos) e)))) (1/2))
                  current_elos) = 0"
proof -
  let ?s = "sort current_elos"
  let ?n = "length current_elos"
  let ?G = "\<lambda>e. calculate_delta_scores_pair k e (?s ! (?n - Suc (the (index ?s e)))) (1/2)"
  have ds: "distinct ?s" using dist by simp
  have ls: "length ?s = ?n" by simp
  have "sum_list (map ?G current_elos) = sum ?G (set current_elos)"
    by (rule sum_list_distinct_conv_sum_set [OF dist])
  also have "\<dots> = sum ?G (set ?s)" by simp
  also have "\<dots> = sum_list (map ?G ?s)"
    by (rule sum_list_distinct_conv_sum_set [OF ds, symmetric])
  also have "\<dots> = (\<Sum>i = 0..<length (map ?G ?s). map ?G ?s ! i)" by (rule sum_list_sum_nth)
  also have "\<dots> = (\<Sum>i<?n. map ?G ?s ! i)" by (simp add: atLeast0LessThan)
  also have "\<dots> = (\<Sum>i<?n. calculate_delta_scores_pair k (?s ! i) (?s ! (?n - Suc i)) (1/2))"
  proof (rule sum.cong [OF refl])
    fix i assume "i \<in> {..<?n}"
    then have i: "i < length ?s" by simp
    have "index ?s (?s ! i) = Some i" by (rule index_nth_distinct [OF ds i])
    then show "map ?G ?s ! i = calculate_delta_scores_pair k (?s ! i) (?s ! (?n - Suc i)) (1/2)"
      using i by simp
  qed
  also have "\<dots> = 0"
    by (rule mirror_sum_zero) (rule pair_half_antisym)
  finally show ?thesis .
qed

lemma only_team_zero_sum:
  assumes len: "length outcomes = length current_elos"
    and one: "set outcomes \<subseteq> {w}"
    and dist: "distinct current_elos"
    and two: "length outcomes \<noteq> 2 \<or> w \<noteq> Draw"
  shows "\<exists>deltas. calculate_delta_scores k outcomes current_elos = Inr deltas
           \<and> length deltas = length outcomes \<and> sum_list deltas = 0
           \<and> deltas = map (\<lambda>e. calculate_delta_scores_pair k e
                            (sort current_elos !
                               (length current_elos - Suc (the (index (sort current_elos) e)))) (1/2))
                  current_elos"
proof (cases "outcomes = []")
  case True
  then show ?thesis using len by (simp add: calculate_delta_scores_def player_deltas_def two_player_check_def)
next
  case False
  let ?ds = "map (\<lambda>e. calculate_delta_scores_pair k e
                            (sort current_elos !
                               (length current_elos - Suc (the (index (sort current_elos) e)))) (1/2))
                  current_elos"
  have d: "player_deltas k outcomes current_elos = Inr ?ds"
    by (rule only_team_deltas [OF len one False])
  have s: "sum_list ?ds = 0" by (rule mirrored_deltas_sum_zero [OF dist])
  have chk: "two_player_check k outcomes current_elos ?ds"
  proof (cases "length outcomes = 2")
    case n: True
    then have "outcomes ! 0 \<in> set outcomes" "outcomes ! 1 \<in> set outcomes" by simp_all
    then have "outcomes ! 0 = w" "outcomes ! 1 = w" using one by auto
    moreover have "w \<noteq> Draw" using two n by simp
    ultimately show ?thesis by (simp add: two_player_check_def)
  next
    case False
    then show ?thesis by (simp add: two_player_check_def)
  qed
  have "calculate_delta_scores k outcomes current_elos = Inr ?ds"
    unfolding calculate_delta_scores_def d using chk len by (simp add: s)
  then show ?thesis using s len by simp
qed

lemma five_draws_mirror:
  "calculate_delta_scores k [Draw, Draw, Draw, Draw, Draw] [1000, 2000, 3000, 4000, 5000] =
     Inr [calculate_delta_scores_pair k 1000 5000 (1/2),
          calculate_delta_scores_pair k 2000 4000 (1/2),
          0,
          - calculate_delta_scores_pair k 2000 4000 (1/2),
          - calculate_delta_scores_pair k 1000 5000 (1/2)]"
proof -
  have d: "player_deltas k [Draw, Draw, Draw, Draw, Draw] [1000, 2000, 3000, 4000, 5000] =
     Inr [calculate_delta_scores_pair k 1000 5000 (1/2),
          calculate_delta_scores_pair k 2000 4000 (1/2),
          0,
          - calculate_delta_scores_pair k 2000 4000 (1/2),
          - calculate_delta_scores_pair k 1000 5000 (1/2)]"
    by (simp add: player_deltas_def group_loop_def groups_init_def player_delta_def
          inter_group_def intra_group_def single_team_outcome_def single_team_elos_def
          win_loss_def win_draw_def loss_draw_def divide_by_count_def
          pair_half_antisym [of k 5000 1000] pair_half_antisym [of k 4000 2000])
  show ?thesis
    unfolding calculate_delta_scores_def d by (simp add: two_player_check_def)
qed

section \<open>The claims about the rating engine\<close>

text \<open>
  C1: for every non-empty outcome list with an equal-length list of ratings the rating
  engine returns a same-length list of deltas whose sum is below \<open>1e-6\<close> in absolute
  value, also when several players share a rating. The code does not: three players who
  all draw with ratings 1200, 1200 and 1600 (and \<open>score_turbulence = 32\<close>) are both
  paired with the 1600 player, because \<open>list.index\<close> finds the first of two equal
  ratings; the deltas sum to \<open>144/11\<close> and the zero-sum assertion raises. The sum is
  exactly 0 when at least two groups have members (\<open>several_groups_zero_sum\<close>) and when
  the ratings of the only group are pairwise distinct (\<open>only_team_zero_sum\<close>).
\<close>

theorem shared_rating_breaks_zero_sum:
  "player_deltas 32 [Draw, Draw, Draw] [1200, 1200, 1600] = Inr [144 / 11, 144 / 11, - (144 / 11)]
   \<and> sum_list [144 / 11, 144 / 11, - (144 / 11) :: real] = 144 / 11
   \<and> calculate_delta_scores 32 [Draw, Draw, Draw] [1200, 1200, 1600] = Inl AssertionError"
proof -
  have d: "player_deltas 32 [Draw, Draw, Draw] [1200, 1200, 1600]
             = Inr [144 / 11, 144 / 11, - (144 / 11)]"
    by (simp add: engine_defs calculate_delta_scores_pair_def)
  have r: "calculate_delta_scores 32 [Draw, Draw, Draw] [1200, 1200, 1600] = Inl AssertionError"
    unfolding calculate_delta_scores_def d by simp
  show ?thesis using d r by simp
qed

text \<open>
  C2: for two players with differing outcomes the first player's delta is the pairwise
  formula on the two ratings, with win-weight 1 when the first player won and 0
  otherwise, and the second player's delta is its negation. For the outcomes (Draw, Loss)
  the code computes the first delta with win-weight 1, its own two-player assertion
  expects win-weight 0, and the call raises, for every non-zero turbulence constant and all
  ratings (\<open>two_player_draw_loss\<close>); in exact arithmetic the other five orders return the
  claimed values (\<open>two_player_win_loss\<close>, \<open>two_player_loss_win\<close>,
  \<open>two_player_win_draw\<close>, \<open>two_player_draw_win\<close>, \<open>two_player_loss_draw\<close>).
\<close>

theorem draw_loss_fails_two_player_assertion:
  "player_deltas 32 [Draw, Loss] [1200, 1600] = Inr [320 / 11, - (320 / 11)]
   \<and> calculate_delta_scores_pair 32 1200 1600 0 = - (32 / 11)
   \<and> calculate_delta_scores 32 [Draw, Loss] [1200, 1600] = Inl AssertionError"
proof -
  have d: "player_deltas 32 [Draw, Loss] [1200, 1600] = Inr [320 / 11, - (320 / 11)]"
    by (simp add: engine_defs calculate_delta_scores_pair_def)
  have e: "calculate_delta_scores_pair 32 1200 1600 0 = - (32 / 11)"
    by (simp add: calculate_delta_scores_pair_def)
  have r: "calculate_delta_scores 32 [Draw, Loss] [1200, 1600] = Inl AssertionError"
    by (rule two_player_draw_loss) simp
  show ?thesis using d e r by simp
qed

text \<open>
  C3: when one outcome group holds all players, each member's delta is the pairwise
  formula with win-weight 0.5 against the rating at the mirror position of the sorted
  group, and the middle member of an odd-sized group receives 0. With five players who
  all draw and ratings 400, 800, 800, 1600, 2000 the middle member (the second 800) is
  looked up at the position of the first 800 and is paired with 1600: it receives
  \<open>1584/101\<close>, not 0, and the call raises on the zero-sum assertion. With pairwise
  distinct ratings every member is paired with the mirror position
  (\<open>only_team_zero_sum\<close>), as in the example of the specification
  (\<open>five_draws_mirror\<close>).
\<close>

theorem middle_member_with_shared_rating:
  "sort [400, 800, 800, 1600, 2000 :: real] ! 2 = 800
   \<and> player_deltas 32 [Draw, Draw, Draw, Draw, Draw] [400, 800, 800, 1600, 2000]
       = Inr [159984 / 10001, 1584 / 101, 1584 / 101, - (1584 / 101), - (159984 / 10001)]
   \<and> calculate_delta_scores 32 [Draw, Draw, Draw, Draw, Draw] [400, 800, 800, 1600, 2000]
       = Inl AssertionError"
proof -
  have s: "sort [400, 800, 800, 1600, 2000 :: real] ! 2 = 800" by simp
  have d: "player_deltas 32 [Draw, Draw, Draw, Draw, Draw] [400, 800, 800, 1600, 2000]
       = Inr [159984 / 10001, 1584 / 101, 1584 / 101, - (1584 / 101), - (159984 / 10001)]"
    by (simp add: engine_defs calculate_delta_scores_pair_def)
  have r: "calculate_delta_scores 32 [Draw, Draw, Draw, Draw, Draw] [400, 800, 800, 1600, 2000]
       = Inl AssertionError"
    unfolding calculate_delta_scores_def d by simp
  show ?thesis using s d r by simp
qed


text \<open>
  In exact arithmetic and for a non-negative turbulence constant the deltas of two players
  with the same outcome are ordered against their ratings. The statement is about the
  real-number reading of the formula only: in double arithmetic the quotient
  \<open>a_rating / (a_rating + b_rating)\<close> is rounded, and rounding can reverse the order of two
  deltas that are close.
\<close>

lemma same_outcome_monotone_exact:
  assumes k: "0 \<le> k"
    and res: "calculate_delta_scores k outcomes current_elos = Inr ds"
    and i: "i < length outcomes" and j: "j < length outcomes"
    and same: "outcomes ! i = outcomes ! j"
    and lt: "current_elos ! i < current_elos ! j"
  shows "ds ! j \<le> ds ! i"
proof -
  define g where "g = group_loop outcomes current_elos"
  define v where "v = outcomes ! i"
  define a where "a = current_elos ! i"
  define b where "b = current_elos ! j"
  have di: "player_delta k g (v, a) = Inr (ds ! i)"
    using player_delta_nth [OF res i] by (simp add: g_def v_def a_def)
  have dj: "player_delta k g (v, b) = Inr (ds ! j)"
    using player_delta_nth [OF res j] same by (simp add: g_def v_def b_def)
  from di obtain x where x: "inter_group k g v = Inr x"
    by (auto simp: player_delta_def split: sum.splits)
  show ?thesis
  proof (cases "Some v = single_team_outcome g")
    case False
    then have "ds ! i = x" "ds ! j = x" using di dj x by (simp_all add: player_delta_def)
    then show ?thesis by simp
  next
    case True
    let ?s = "single_team_elos g"
    have "intra_group k g a x = Inr (ds ! i)" using di x True by (simp add: player_delta_def)
    then obtain p where p: "index ?s a = Some p"
      and dp: "ds ! i = x + calculate_delta_scores_pair k a (?s ! (length ?s - p - 1)) (1/2)"
      using intra_group_Inr by blast
    have "intra_group k g b x = Inr (ds ! j)" using dj x True by (simp add: player_delta_def)
    then obtain q where q: "index ?s b = Some q"
      and dq: "ds ! j = x + calculate_delta_scores_pair k b (?s ! (length ?s - q - 1)) (1/2)"
      using intra_group_Inr by blast
    have ab: "a < b" using lt by (simp add: a_def b_def)
    have pq: "p < q" using index_sorted_less [OF single_team_elos_sorted p q ab] .
    have ql: "q < length ?s" using index_Some [OF q] by simp
    have "length ?s - q - 1 \<le> length ?s - p - 1" using pq by simp
    moreover have "length ?s - p - 1 < length ?s" using pq ql by simp
    ultimately have opp: "?s ! (length ?s - q - 1) \<le> ?s ! (length ?s - p - 1)"
      using sorted_nth_mono [OF single_team_elos_sorted] by blast
    have "a \<le> b" using ab by simp
    from pair_half_mono [OF k this opp] show ?thesis by (simp add: dp dq)
  qed
qed








text \<open>
  C10: called with an empty outcome list and an empty rating list, the rating engine
  returns the empty list; no assertion fails and no division or lookup is reached.
\<close>

theorem empty_input_returns_empty: "calculate_delta_scores k [] [] = Inr []"
  by (simp add: calculate_delta_scores_def player_deltas_def two_player_check_def)


section \<open>The pacing of the worker\<close>

lemma sleep_duration_ignores_failure:
  "sleep_duration seconds_per_run diff success penalty jitter
     = max 0 (real_of_int seconds_per_run - diff + 0.05 * real_of_int seconds_per_run * (jitter - 0.5))"
  by (simp add: sleep_duration_def Let_def)

text \<open>
  C6: after a failed or skipped iteration the worker sleeps for the remaining time
  floored at 0, plus the drawn penalty, plus the jitter. The code computes the sum with
  the penalty and drops it (\<open>wait_time + ...\<close> where \<open>wait_time += ...\<close> is meant,
  under the comment "Pause for a while on failure"): with a target of 10 seconds, no
  elapsed time, a penalty of 5 and no jitter it sleeps 10 seconds after a failure, as
  after a success, where the specified duration is 15.
\<close>

theorem failure_penalty_is_dropped:
  "sleep_duration 10 0 False 5 (1 / 2) = 10
   \<and> sleep_duration 10 0 True 5 (1 / 2) = 10
   \<and> specified_failure_sleep 10 0 5 (1 / 2) = 15"
  by (simp add: sleep_duration_def specified_failure_sleep_def)

section \<open>Properties of the recorder\<close>

lemma zero_deltas_sum:
  assumes "\<forall>r \<in> set new. points_delta r = 0"
  shows "sum_list [points_delta r. r \<leftarrow> old @ new, Q r] = sum_list [points_delta r. r \<leftarrow> old, Q r]"
proof -
  have "sum_list [points_delta r. r \<leftarrow> new, Q r] = 0"
    using assms by (induction new) auto
  then show ?thesis by simp
qed

lemma zero_deltas_sum_all:
  assumes "\<forall>r \<in> set new. points_delta r = 0"
  shows "sum_list [points_delta r. s \<leftarrow> subs, P s, r \<leftarrow> old @ new, Q s r]
       = sum_list [points_delta r. s \<leftarrow> subs, P s, r \<leftarrow> old, Q s r]"
proof (induction subs)
  case Nil
  show ?case by simp
next
  case (Cons s subs)
  have "sum_list [points_delta r. r \<leftarrow> old @ new, Q s r] = sum_list [points_delta r. r \<leftarrow> old, Q s r]"
    by (rule zero_deltas_sum [OF assms])
  then show ?case using Cons.IH by simp
qed

lemma derived_rating_zero_deltas:
  assumes "submissions db' = submissions db" "results db' = results db @ new"
    "\<forall>r \<in> set new. points_delta r = 0"
  shows "derived_rating init db' u = derived_rating init db u"
  unfolding derived_rating_def assms(1,2)
  by (simp only: zero_deltas_sum_all [OF assms(3)])

lemma commit_match_fields:
  "submissions (commit_match now db ids result deltas) = submissions db"
  "results (commit_match now db ids result deltas)
     = results db @ map (new_result (length (matches db))) (zip (zip ids (submission_results result)) deltas)"
  "matches (commit_match now db ids result deltas)
     = matches db @ [\<lparr>match_date = now, recording = rr_recording result\<rparr>]"
  by (simp_all add: commit_match_def)

lemma new_results_deltas:
  assumes "length ids = length srs" "length deltas = length ids"
  shows "map points_delta (map (new_result m) (zip (zip ids srs) deltas)) = deltas"
proof -
  have "map points_delta (map (new_result m) (zip (zip ids srs) deltas)) = map snd (zip (zip ids srs) deltas)"
    by (simp add: new_result_def split_def comp_def)
  also have "\<dots> = deltas" using assms by simp
  finally show ?thesis .
qed

lemma new_results_ids:
  assumes "length ids = length srs" "length deltas = length ids"
  shows "map res_submission_id (map (new_result m) (zip (zip ids srs) deltas)) = ids"
proof -
  have "map res_submission_id (map (new_result m) (zip (zip ids srs) deltas))
      = map fst (map fst (zip (zip ids srs) deltas))"
    by (simp add: new_result_def split_def comp_def)
  also have "\<dots> = ids" using assms by simp
  finally show ?thesis .
qed

lemma save_result_no_update:
  assumes "length subs = length (submission_results result)"
  shows "save_result_with engine init outcome_of now db subs result False
       = Inr (commit_match now db (map sub_id subs) result (replicate (length subs) 0))"
  using assms by (simp add: save_result_with_def)

lemma save_result_ValueError:
  assumes "length subs \<noteq> length (submission_results result)"
  shows "save_result_with engine init outcome_of now db subs result update_scores = Inl ValueError"
  using assms by (simp add: save_result_with_def)

lemma zero_commit_rating:
  assumes "length ids = length (submission_results result)"
  shows "derived_rating init (commit_match now db ids result (replicate (length ids) 0)) u
       = derived_rating init db u"
proof -
  let ?new = "map (new_result (length (matches db)))
     (zip (zip ids (submission_results result)) (replicate (length ids) 0))"
  have "map points_delta ?new = replicate (length ids) 0"
    using assms by (intro new_results_deltas) simp_all
  moreover have "set (replicate (length ids) (0::real)) \<subseteq> {0}" by auto
  ultimately have "set (map points_delta ?new) \<subseteq> {0}" by (simp only:)
  then have z: "\<forall>r \<in> set ?new. points_delta r = 0" by auto
  show ?thesis
    by (rule derived_rating_zero_deltas [OF commit_match_fields(1) commit_match_fields(2) z])
qed

section \<open>Properties of \<open>_get_elos\<close>\<close>

lemma inner_group_filter:
  "[f r. (s', r) \<leftarrow> [(s, r). r \<leftarrow> rs, Q r], R s'] = (if R s then [f r. r \<leftarrow> rs, Q r] else [])"
  by (induction rs) auto

lemma joined_group_filter:
  "[f r. (s', r) \<leftarrow> [(s, r). s \<leftarrow> subs, P s, r \<leftarrow> rs, Q s r], R s']
     = [f r. s \<leftarrow> subs, P s \<and> R s, r \<leftarrow> rs, Q s r]"
proof (induction subs)
  case Nil
  show ?case by simp
next
  case (Cons s subs)
  have "[f r. (s', r) \<leftarrow> [(s, r). r \<leftarrow> rs, Q s r], R s'] = (if R s then [f r. r \<leftarrow> rs, Q s r] else [])"
    by (rule inner_group_filter)
  then show ?case using Cons.IH by simp
qed

lemma map_of_rev_unique:
  assumes "(i, v) \<in> set xs" "\<And>e. (i, e) \<in> set xs \<Longrightarrow> e = v"
  shows "map_of (rev xs) i = Some v"
proof (cases "map_of (rev xs) i")
  case None
  then have "i \<notin> fst ` set (rev xs)" by (simp add: map_of_eq_None_iff)
  with assms(1) show ?thesis by force
next
  case (Some e)
  then have "(i, e) \<in> set xs" using map_of_SomeD by fastforce
  with assms(2) Some show ?thesis by simp
qed

lemma map_of_rev_absent:
  assumes "\<And>e. (i, e) \<notin> set xs"
  shows "map_of (rev xs) i = None"
proof -
  have "i \<notin> fst ` set (rev xs)" using assms by force
  then show ?thesis using map_of_eq_None_iff [of "rev xs" i] by blast
qed

lemma elo_subq_set:
  "(u, e) \<in> set (elo_subq db ids) \<longleftrightarrow>
     (\<exists>s \<in> set (submissions db). \<exists>r \<in> set (results db).
        sub_id s \<in> set ids \<and> res_submission_id r = sub_id s \<and> user_id s = u)
     \<and> e = listed_rating 0 db ids u"
proof -
  have sum: "sum_list [points_delta r. (s, r) \<leftarrow>
        [(s, r). s \<leftarrow> submissions db, sub_id s \<in> set ids, r \<leftarrow> results db, res_submission_id r = sub_id s],
        user_id s = u] = listed_rating 0 db ids u"
    unfolding listed_rating_def by (simp only: joined_group_filter add_0)
  show ?thesis
    unfolding elo_subq_def Let_def
    apply (simp only: set_map set_remdups set_concat split_def sum [unfolded split_def])
    apply (auto simp: sum [unfolded split_def] image_iff)
    done
qed


lemma elo_rows_set:
  "(i, e) \<in> set (elo_rows db ids) \<longleftrightarrow>
     (\<exists>s \<in> set (submissions db). sub_id s = i \<and> i \<in> set ids \<and> (user_id s, e) \<in> set (elo_subq db ids))"
  unfolding elo_rows_def by auto

lemma empty_join:
  assumes "\<And>s r. s \<in> set subs \<Longrightarrow> r \<in> set rs \<Longrightarrow> P s \<Longrightarrow> \<not> Q s r"
  shows "[f r. s \<leftarrow> subs, P s, r \<leftarrow> rs, Q s r] = []"
proof -
  have inner: "[f r. r \<leftarrow> rs, Q s r] = []" if "s \<in> set subs" "P s" for s
    using assms [OF that(1) _ that(2)] by auto
  show ?thesis by (auto simp: inner)
qed

lemma listed_rating_absent:
  assumes "\<not> (\<exists>s \<in> set (submissions db). \<exists>r \<in> set (results db).
              sub_id s \<in> set ids \<and> res_submission_id r = sub_id s \<and> user_id s = u)"
  shows "listed_rating init db ids u = init"
proof -
  have "[points_delta r. s \<leftarrow> submissions db, sub_id s \<in> set ids \<and> user_id s = u,
                         r \<leftarrow> results db, res_submission_id r = sub_id s] = []"
    by (rule empty_join) (use assms in blast)
  then show ?thesis unfolding listed_rating_def by (simp only: sum_list.Nil add_0_right)
qed

lemma listed_rating_init: "listed_rating init db ids u = init + listed_rating 0 db ids u"
  by (simp add: listed_rating_def)

lemma find_sub_id:
  assumes "distinct (map sub_id subs)"
  shows "find (\<lambda>s. sub_id s = i) subs = Some s \<longleftrightarrow> s \<in> set subs \<and> sub_id s = i"
  using assms by (induction subs) (auto simp: image_iff)

lemma elo_lookup:
  assumes pk: "distinct (map sub_id (submissions db))" and i: "i \<in> set ids"
  shows "(case map_of (rev (elo_rows db ids)) i of Some elo \<Rightarrow> elo | None \<Rightarrow> 0) + init
       = (case find (\<lambda>s. sub_id s = i) (submissions db) of
            None \<Rightarrow> init
          | Some s \<Rightarrow> listed_rating init db ids (user_id s))"
proof (cases "find (\<lambda>s. sub_id s = i) (submissions db)")
  case None
  then have "\<And>s. s \<in> set (submissions db) \<Longrightarrow> sub_id s \<noteq> i"
    by (simp add: find_None_iff)
  then have "\<And>e. (i, e) \<notin> set (elo_rows db ids)" by (auto simp: elo_rows_set)
  then have "map_of (rev (elo_rows db ids)) i = None" by (rule map_of_rev_absent)
  then show ?thesis using None by simp
next
  case (Some s)
  then have s: "s \<in> set (submissions db)" "sub_id s = i"
    using find_sub_id [OF pk] by simp_all
  have uniq: "s' = s" if "s' \<in> set (submissions db)" "sub_id s' = i" for s'
    using that Some find_sub_id [OF pk, of i s'] by simp
  let ?u = "user_id s"
  show ?thesis
  proof (cases "\<exists>s' \<in> set (submissions db). \<exists>r \<in> set (results db).
              sub_id s' \<in> set ids \<and> res_submission_id r = sub_id s' \<and> user_id s' = ?u")
    case True
    then have "(?u, listed_rating 0 db ids ?u) \<in> set (elo_subq db ids)"
      by (simp only: elo_subq_set simp_thms)
    then have row: "(i, listed_rating 0 db ids ?u) \<in> set (elo_rows db ids)"
      using s i by (auto simp: elo_rows_set)
    have "e = listed_rating 0 db ids ?u" if "(i, e) \<in> set (elo_rows db ids)" for e
    proof -
      from that obtain s' where "s' \<in> set (submissions db)" "sub_id s' = i"
        and e: "(user_id s', e) \<in> set (elo_subq db ids)"
        by (auto simp: elo_rows_set)
      then have "s' = s" using uniq by simp
      with e show ?thesis by (simp add: elo_subq_set)
    qed
    with row have "map_of (rev (elo_rows db ids)) i = Some (listed_rating 0 db ids ?u)"
      by (rule map_of_rev_unique)
    then show ?thesis using Some listed_rating_init [of init db ids ?u] by simp
  next
    case False
    have "(i, e) \<notin> set (elo_rows db ids)" for e
    proof
      assume "(i, e) \<in> set (elo_rows db ids)"
      then obtain s' where "s' \<in> set (submissions db)" "sub_id s' = i"
        and e: "(user_id s', e) \<in> set (elo_subq db ids)"
        by (auto simp: elo_rows_set)
      then have "s' = s" using uniq by simp
      with e False show False by (simp add: elo_subq_set)
    qed
    then have "map_of (rev (elo_rows db ids)) i = None" by (rule map_of_rev_absent)
    then show ?thesis using Some listed_rating_absent [OF False, of init] by simp
  qed
qed

lemma get_elos_listed:
  assumes "distinct (map sub_id (submissions db))"
  shows "get_elos init db submission_ids =
           map (\<lambda>i. case find (\<lambda>s. sub_id s = i) (submissions db) of
                       None \<Rightarrow> init
                     | Some s \<Rightarrow> listed_rating init db submission_ids (user_id s))
               submission_ids"
  unfolding get_elos_def Let_def
  by (rule map_cong [OF refl]) (rule elo_lookup [OF assms])

text \<open>
  C4: the rating \<open>_get_elos\<close> fetches for an entrant is the initial score plus the
  deltas of all results of every submission its participant has ever made. The query
  keeps only submissions whose id is in the list of the current match before it joins the
  results: in the example store participant 7 has a delta of 10 on the older submission 1,
  and the rating fetched for submission 2 is 1000, not 1010.
\<close>

theorem get_elos_skips_older_submissions:
  "get_elos 1000 history_db [2, 3] = [1000, 990]
   \<and> map (derived_rating 1000 history_db) [7, 8] = [1010, 990]
   \<and> get_elos 1000 history_db [2, 3] \<noteq> map (derived_rating 1000 history_db) [7, 8]"
proof -
  have g: "get_elos 1000 history_db [2, 3] = [1000, 990]"
    by (simp add: get_elos_def elo_rows_def elo_subq_def history_db_def)
  have d: "map (derived_rating 1000 history_db) [7, 8] = [1010, 990]"
    by (simp add: derived_rating_def history_db_def)
  show ?thesis unfolding g d by simp
qed

text \<open>
  C4, as the code has it: where submission ids are unique, the rating fetched for a listed
  id is the initial score plus the deltas of the results of those submissions of the same
  participant whose id is listed for the current match, and the initial score alone for an
  id no submission has.
\<close>

theorem get_elos_sums_listed_submissions:
  assumes "distinct (map sub_id (submissions db))"
  shows "get_elos init db submission_ids =
           map (\<lambda>i. case find (\<lambda>s. sub_id s = i) (submissions db) of
                       None \<Rightarrow> init
                     | Some s \<Rightarrow> listed_rating init db submission_ids (user_id s))
               submission_ids"
  using assms by (rule get_elos_listed)

theorem get_elos_sums_listed_submissions_witness:
  "distinct (map sub_id (submissions history_db))
   \<and> get_elos 1000 history_db [2, 3]
       = [listed_rating 1000 history_db [2, 3] 7, listed_rating 1000 history_db [2, 3] 8]
   \<and> listed_rating 1000 history_db [2, 3] 7 = 1000"
proof -
  have h: "distinct (map sub_id (submissions history_db))"
    by (simp add: history_db_def)
  have f2: "find (\<lambda>s. sub_id s = 2) (submissions history_db) = Some (submissions history_db ! Suc 0)"
    by (simp add: history_db_def)
  have f3: "find (\<lambda>s. sub_id s = 3) (submissions history_db) = Some (submissions history_db ! 2)"
    by (simp add: history_db_def)
  have u: "user_id (submissions history_db ! Suc 0) = 7" "user_id (submissions history_db ! 2) = 8"
    by (simp_all add: history_db_def)
  have l: "listed_rating 1000 history_db [2, 3] 7 = 1000"
    by (simp add: listed_rating_def history_db_def)
  show ?thesis
    using h l get_elos_sums_listed_submissions [OF h, of 1000 "[2, 3]"]
    by (simp add: f2 f3 u)
qed

section \<open>Properties of the recorded matches\<close>

lemma listed_rating_zero_deltas:
  assumes "submissions db' = submissions db" "results db' = results db @ new"
    "\<forall>r \<in> set new. points_delta r = 0"
  shows "listed_rating init db' ids u = listed_rating init db ids u"
  unfolding listed_rating_def assms(1,2)
  by (simp only: zero_deltas_sum_all [OF assms(3)])

lemma get_elos_zero_deltas:
  assumes "submissions db' = submissions db" "results db' = results db @ new"
    "\<forall>r \<in> set new. points_delta r = 0" "distinct (map sub_id (submissions db))"
  shows "get_elos init db' ids = get_elos init db ids"
proof -
  have pk': "distinct (map sub_id (submissions db'))" using assms(1,4) by simp
  show ?thesis
    unfolding get_elos_listed [OF pk'] get_elos_listed [OF assms(4)]
    by (simp add: assms(1) listed_rating_zero_deltas [OF assms(1-3)] cong: option.case_cong)
qed

lemma outcomes_of_length:
  "outcomes_of f rs = Inr vs \<Longrightarrow> length vs = length rs"
  by (induction rs arbitrary: vs) (auto split: option.splits sum.splits)

lemma zero_new_results:
  assumes "length ids = length srs"
  shows "\<forall>r \<in> set (map (new_result m) (zip (zip ids srs) (replicate (length ids) 0))). points_delta r = 0"
proof -
  let ?new = "map (new_result m) (zip (zip ids srs) (replicate (length ids) 0))"
  have "map points_delta ?new = replicate (length ids) 0"
    using assms by (intro new_results_deltas) simp_all
  moreover have "set (replicate (length ids) (0::real)) \<subseteq> {0}" by auto
  ultimately have "set (map points_delta ?new) \<subseteq> {0}" by (simp only:)
  then show ?thesis by auto
qed

lemma save_result_update:
  assumes "save_result_with engine init outcome_of now db subs result True = Inr db'"
  shows "length subs = length (submission_results result) \<and>
         (\<exists>outcomes deltas.
            outcomes_of outcome_of (submission_results result) = Inr outcomes
          \<and> engine outcomes (get_elos init db (map sub_id subs)) = Inr deltas
          \<and> db' = commit_match now db (map sub_id subs) result deltas)"
  using assms
  by (auto simp: save_result_with_def Let_def split: if_splits sum.splits)

lemma run_typical_match_Inr:
  assumes "run_typical_match_with engine init outcome_of now runner picks pc db = Inr (True, db')"
  shows "\<exists>subs result.
           typical_submissions picks pc db = Some subs
         \<and> run_match runner subs = Inr result
         \<and> save_result_with engine init outcome_of now db subs result
              (True \<in> set (map sr_healthy (submission_results result))) = Inr db'"
  using assms
  by (auto simp: run_typical_match_with_def Let_def split: option.splits sum.splits)

lemma run_test_match_Inr:
  assumes "run_test_match_with engine init outcome_of now runner rnd pc db = Inr (True, db')"
  shows "\<exists>subs result.
           test_submissions rnd pc db = Some subs
         \<and> run_match runner subs = Inr result
         \<and> save_result_with engine init outcome_of now db subs result False = Inr db'"
  using assms
  by (auto simp: run_test_match_with_def split: option.splits sum.splits)

lemma test_submissions_Some:
  assumes "test_submissions rnd pc db = Some subs" "0 < pc"
  shows "\<exists>s \<in> set (get_all_untested_submissions db). subs = replicate (nat pc) s"
proof -
  let ?newest = "get_all_untested_submissions db"
  have ne: "length ?newest \<noteq> 0" and subs: "subs = replicate (nat pc) (?newest ! (rnd mod length ?newest))"
    using assms by (auto simp: test_submissions_def Let_def split: if_splits)
  have "rnd mod length ?newest < length ?newest" using ne by simp
  then have "?newest ! (rnd mod length ?newest) \<in> set ?newest" by (rule nth_mem)
  then show ?thesis using subs by blast
qed

lemma unrated_commit:
  assumes len: "length subs = length (submission_results result)"
  shows "submissions (commit_match now db (map sub_id subs) result (replicate (length subs) 0)) = submissions db"
    and "\<exists>new. results (commit_match now db (map sub_id subs) result (replicate (length subs) 0)) = results db @ new
               \<and> map res_submission_id new = map sub_id subs
               \<and> map points_delta new = replicate (length subs) 0"
    and "derived_rating init (commit_match now db (map sub_id subs) result (replicate (length subs) 0)) u = derived_rating init db u"
    and "distinct (map sub_id (submissions db)) \<Longrightarrow> get_elos init (commit_match now db (map sub_id subs) result (replicate (length subs) 0)) ids = get_elos init db ids"
proof -
  let ?ids = "map sub_id subs"
  let ?db' = "(commit_match now db (map sub_id subs) result (replicate (length subs) 0))"
  let ?new = "map (new_result (length (matches db)))
                (zip (zip ?ids (submission_results result)) (replicate (length ?ids) 0))"
  have l: "length ?ids = length (submission_results result)" using len by simp
  have s: "submissions ?db' = submissions db" by (simp add: commit_match_fields)
  have r: "results ?db' = results db @ ?new" by (simp add: commit_match_fields)
  have z: "\<forall>r \<in> set ?new. points_delta r = 0" by (rule zero_new_results [OF l])
  show "submissions ?db' = submissions db" by (rule s)
  have "map res_submission_id ?new = ?ids" using l by (intro new_results_ids) simp_all
  moreover have "map points_delta ?new = replicate (length subs) 0"
    using new_results_deltas [of ?ids "submission_results result" "replicate (length ?ids) 0"] l
    by simp
  ultimately show "\<exists>new. results ?db' = results db @ new
               \<and> map res_submission_id new = map sub_id subs
               \<and> map points_delta new = replicate (length subs) 0"
    using r by blast
  show "derived_rating init ?db' u = derived_rating init db u"
    by (rule derived_rating_zero_deltas [OF s r z])
  show "get_elos init ?db' ids = get_elos init db ids" if "distinct (map sub_id (submissions db))"
    by (rule get_elos_zero_deltas [OF s r z that])
qed

lemma rated_commit:
  assumes sv: "save_result k init outcome_of now db subs result True = Inr db'"
  shows "submissions db' = submissions db"
    and "\<exists>new outcomes.
             results db' = results db @ new
           \<and> map res_submission_id new = map sub_id subs
           \<and> outcomes_of outcome_of (submission_results result) = Inr outcomes
           \<and> calculate_delta_scores k outcomes (get_elos init db (map sub_id subs))
               = Inr (map points_delta new)"
proof -
  from save_result_update [OF sv [unfolded save_result_def]] obtain outcomes deltas where
    len: "length subs = length (submission_results result)" and
    oc: "outcomes_of outcome_of (submission_results result) = Inr outcomes" and
    en: "calculate_delta_scores k outcomes (get_elos init db (map sub_id subs)) = Inr deltas" and
    db': "db' = commit_match now db (map sub_id subs) result deltas"
    by blast
  let ?ids = "map sub_id subs"
  let ?new = "map (new_result (length (matches db))) (zip (zip ?ids (submission_results result)) deltas)"
  have l: "length ?ids = length (submission_results result)" using len by simp
  have ld: "length deltas = length ?ids"
    using calculate_delta_scores_Inr(2) [OF en] outcomes_of_length [OF oc] len by simp
  show "submissions db' = submissions db" by (simp add: db' commit_match_fields)
  have r: "results db' = results db @ ?new" by (simp add: db' commit_match_fields)
  have i: "map res_submission_id ?new = ?ids" by (rule new_results_ids [OF l ld])
  have d: "map points_delta ?new = deltas" by (rule new_results_deltas [OF l ld])
  show "\<exists>new outcomes.
             results db' = results db @ new
           \<and> map res_submission_id new = map sub_id subs
           \<and> outcomes_of outcome_of (submission_results result) = Inr outcomes
           \<and> calculate_delta_scores k outcomes (get_elos init db (map sub_id subs))
               = Inr (map points_delta new)"
    using r i oc en d by (intro exI [of _ ?new] exI [of _ outcomes]) simp
qed

subsection \<open>Runs on the example store\<close>

lemmas store_defs =
  get_all_latest_healthy_submissions_def healthy_subq_def total_results_subq_def
  most_recent_subq_def healthies_def total_def get_all_untested_submissions_def
  typical_submissions_def test_submissions_def run_match_def

lemma example_test_match:
  "run_test_match 32 1000 outcome_values 3 (\<lambda>h. (200, crashed_slots)) 0 2 history_db
     = Inr (True, commit_match 3 history_db [4, 4] crashed_slots [0, 0])"
  by (simp add: run_test_match_def run_test_match_with_def store_defs save_result_with_def
        history_db_def crashed_slots_def numeral_2_eq_2)

lemma example_crashed_match:
  "run_typical_match 32 1000 outcome_values 3 (\<lambda>h. (200, crashed_slots)) [0, 1] 2 history_db
     = Inr (True, commit_match 3 history_db [2, 3] crashed_slots [0, 0])"
  by (simp add: run_typical_match_def run_typical_match_with_def store_defs save_result_with_def
        history_db_def crashed_slots_def numeral_2_eq_2)

lemma example_played_match:
  "run_typical_match 32 1000 outcome_values 3 (\<lambda>h. (200, played_slots)) [0, 1] 2 history_db
     = Inr (True, commit_match 3 history_db [2, 3] played_slots
              [calculate_delta_scores_pair 32 1000 990 1, - calculate_delta_scores_pair 32 1000 990 1])"
proof -
  have sel: "typical_submissions [0, 1] 2 history_db
      = Some [submissions history_db ! 1, submissions history_db ! 2]"
    by (simp add: store_defs history_db_def)
  have ids: "map sub_id [submissions history_db ! 1, submissions history_db ! 2] = [2, 3]"
    by (simp add: history_db_def)
  have ge: "get_elos 1000 history_db [2, 3] = [1000, 990]"
    by (simp add: get_elos_def elo_rows_def elo_subq_def history_db_def)
  have oc: "outcomes_of outcome_values (submission_results played_slots) = Inr [Win, Loss]"
    by (simp add: played_slots_def outcome_values_def)
  have h: "True \<in> set (map sr_healthy (submission_results played_slots))"
    by (simp add: played_slots_def)
  have len: "length (submission_results played_slots) = 2" by (simp add: played_slots_def)
  show ?thesis
    unfolding run_typical_match_def run_typical_match_with_def sel
    using h by (simp add: run_match_def save_result_with_def ids [simplified] ge oc len two_player_win_loss
        del: set_map)
qed

section \<open>The claims about recorded matches\<close>

text \<open>
  C5: a recorded typical match applies rating updates if and only if at least one slot of
  the payload is flagged healthy. With a healthy slot the recorded deltas are the list the
  rating engine returns on the decoded outcomes and the fetched ratings; with none, every
  recorded delta is 0, the derived rating of every participant is unchanged, and the
  result is the same for every rating engine put in its place.
\<close>

theorem typical_match_rates_iff_healthy:
  assumes run: "run_typical_match k init outcome_of now runner i_submissions player_count db = Inr (True, db')"
  shows "\<exists>subs result new.
           typical_submissions i_submissions player_count db = Some subs
         \<and> run_match runner subs = Inr result
         \<and> submissions db' = submissions db
         \<and> results db' = results db @ new
         \<and> map res_submission_id new = map sub_id subs
         \<and> (if True \<in> set (map sr_healthy (submission_results result))
            then (\<exists>outcomes.
                     outcomes_of outcome_of (submission_results result) = Inr outcomes
                   \<and> calculate_delta_scores k outcomes (get_elos init db (map sub_id subs))
                       = Inr (map points_delta new))
            else (map points_delta new = replicate (length subs) 0
                  \<and> (\<forall>u. derived_rating init db' u = derived_rating init db u)
                  \<and> (\<forall>engine. run_typical_match_with engine init outcome_of now runner
                                  i_submissions player_count db = Inr (True, db'))))"
proof -
  from run obtain subs result where
    sel: "typical_submissions i_submissions player_count db = Some subs" and
    rm: "run_match runner subs = Inr result" and
    sv: "save_result_with (calculate_delta_scores k) init outcome_of now db subs result
           (True \<in> set (map sr_healthy (submission_results result))) = Inr db'"
    unfolding run_typical_match_def using run_typical_match_Inr by blast
  show ?thesis
  proof (cases "True \<in> set (map sr_healthy (submission_results result))")
    case True
    then have sv': "save_result k init outcome_of now db subs result True = Inr db'"
      using sv by (simp add: save_result_def)
    from rated_commit [OF sv'] obtain new outcomes where
      "submissions db' = submissions db"
      "results db' = results db @ new"
      "map res_submission_id new = map sub_id subs"
      "outcomes_of outcome_of (submission_results result) = Inr outcomes"
      "calculate_delta_scores k outcomes (get_elos init db (map sub_id subs)) = Inr (map points_delta new)"
      by blast
    then show ?thesis using sel rm True
      by (intro exI [of _ subs] exI [of _ result] exI [of _ new]) auto
  next
    case False
    then have sv': "save_result_with (calculate_delta_scores k) init outcome_of now db subs result False
        = Inr db'"
      using sv by simp
    have len: "length subs = length (submission_results result)"
    proof (rule ccontr)
      assume "length subs \<noteq> length (submission_results result)"
      from save_result_ValueError [OF this] sv' show False by simp
    qed
    have db': "db' = commit_match now db (map sub_id subs) result (replicate (length subs) 0)"
      using sv' save_result_no_update [OF len, of "calculate_delta_scores k" init outcome_of now db]
      by simp
    have any: "run_typical_match_with engine init outcome_of now runner i_submissions player_count db
        = Inr (True, db')" for engine
      using sel rm False save_result_no_update [OF len, of engine init outcome_of now db]
      by (simp add: run_typical_match_with_def db')
    from unrated_commit(2) [OF len, of now db] obtain new where
      "results db' = results db @ new"
      "map res_submission_id new = map sub_id subs"
      "map points_delta new = replicate (length subs) 0"
      unfolding db' by blast
    moreover have "submissions db' = submissions db"
      unfolding db' by (rule unrated_commit(1) [OF len])
    moreover have "\<forall>u. derived_rating init db' u = derived_rating init db u"
      unfolding db' by (simp add: unrated_commit(3) [OF len])
    ultimately show ?thesis using sel rm False any
      by (intro exI [of _ subs] exI [of _ result] exI [of _ new]) auto
  qed
qed

theorem typical_match_rates_iff_healthy_witness:
  "run_typical_match 32 1000 outcome_values 3 (\<lambda>h. (200, crashed_slots)) [0, 1] 2 history_db
     = Inr (True, commit_match 3 history_db [2, 3] crashed_slots [0, 0])
   \<and> (\<exists>new. results (commit_match 3 history_db [2, 3] crashed_slots [0, 0])
               = results history_db @ new
          \<and> map points_delta new = [0, 0])
   \<and> derived_rating 1000 (commit_match 3 history_db [2, 3] crashed_slots [0, 0]) 7
       = derived_rating 1000 history_db 7
   \<and> run_typical_match 32 1000 outcome_values 3 (\<lambda>h. (200, played_slots)) [0, 1] 2 history_db
       = Inr (True, commit_match 3 history_db [2, 3] played_slots
                [calculate_delta_scores_pair 32 1000 990 1, - calculate_delta_scores_pair 32 1000 990 1])
   \<and> (\<exists>new outcomes ids.
          results (commit_match 3 history_db [2, 3] played_slots
                [calculate_delta_scores_pair 32 1000 990 1, - calculate_delta_scores_pair 32 1000 990 1])
            = results history_db @ new
        \<and> calculate_delta_scores 32 outcomes (get_elos 1000 history_db ids) = Inr (map points_delta new))"
proof -
  let ?crashed = "commit_match 3 history_db [2, 3] crashed_slots [0, 0]"
  let ?played = "commit_match 3 history_db [2, 3] played_slots
                [calculate_delta_scores_pair 32 1000 990 1, - calculate_delta_scores_pair 32 1000 990 1]"
  have h1: "run_typical_match 32 1000 outcome_values 3 (\<lambda>h. (200, crashed_slots)) [0, 1] 2 history_db
     = Inr (True, ?crashed)"
    by (rule example_crashed_match)
  have h2: "run_typical_match 32 1000 outcome_values 3 (\<lambda>h. (200, played_slots)) [0, 1] 2 history_db
     = Inr (True, ?played)"
    by (rule example_played_match)
  from typical_match_rates_iff_healthy [OF h1] obtain subs result new where
    sel: "typical_submissions [0, 1] 2 history_db = Some subs" and
    rm: "run_match (\<lambda>h. (200, crashed_slots)) subs = Inr result" and
    res: "results ?crashed = results history_db @ new" and
    br: "if True \<in> set (map sr_healthy (submission_results result))
         then (\<exists>outcomes.
                 outcomes_of outcome_values (submission_results result) = Inr outcomes
               \<and> calculate_delta_scores 32 outcomes (get_elos 1000 history_db (map sub_id subs))
                   = Inr (map points_delta new))
         else (map points_delta new = replicate (length subs) 0
               \<and> (\<forall>u. derived_rating 1000 ?crashed u = derived_rating 1000 history_db u)
               \<and> (\<forall>engine. run_typical_match_with engine 1000 outcome_values 3 (\<lambda>h. (200, crashed_slots))
                               [0, 1] 2 history_db = Inr (True, ?crashed)))"
    by blast
  have r1: "result = crashed_slots" using rm by (simp add: run_match_def)
  have n1: "\<not> True \<in> set (map sr_healthy (submission_results result))"
    by (simp add: r1 crashed_slots_def)
  have s1: "length subs = 2" using sel by (auto simp: store_defs history_db_def)
  from br n1 have z: "map points_delta new = [0, 0]"
    and d: "derived_rating 1000 ?crashed 7 = derived_rating 1000 history_db 7"
    by (simp_all add: s1 numeral_2_eq_2)
  from typical_match_rates_iff_healthy [OF h2] obtain subs' result' new' where
    rm': "run_match (\<lambda>h. (200, played_slots)) subs' = Inr result'" and
    res': "results ?played = results history_db @ new'" and
    br': "if True \<in> set (map sr_healthy (submission_results result'))
         then (\<exists>outcomes.
                 outcomes_of outcome_values (submission_results result') = Inr outcomes
               \<and> calculate_delta_scores 32 outcomes (get_elos 1000 history_db (map sub_id subs'))
                   = Inr (map points_delta new'))
         else (map points_delta new' = replicate (length subs') 0
               \<and> (\<forall>u. derived_rating 1000 ?played u = derived_rating 1000 history_db u)
               \<and> (\<forall>engine. run_typical_match_with engine 1000 outcome_values 3 (\<lambda>h. (200, played_slots))
                               [0, 1] 2 history_db = Inr (True, ?played)))"
    by blast
  have r2: "result' = played_slots" using rm' by (simp add: run_match_def)
  have y2: "True \<in> set (map sr_healthy (submission_results result'))"
    by (simp add: r2 played_slots_def)
  from br' y2 obtain outcomes where
    "calculate_delta_scores 32 outcomes (get_elos 1000 history_db (map sub_id subs'))
       = Inr (map points_delta new')"
    by (simp only: if_True) (elim exE conjE)
  with res' have p: "\<exists>new outcomes ids. results ?played = results history_db @ new
        \<and> calculate_delta_scores 32 outcomes (get_elos 1000 history_db ids) = Inr (map points_delta new)"
    by (intro exI [of _ new'] exI [of _ outcomes] exI [of _ "map sub_id subs'"]) simp
  have q: "\<exists>new. results ?crashed = results history_db @ new \<and> map points_delta new = [0, 0]"
    using res z by (intro exI [of _ new]) simp
  show ?thesis by (rule conjI [OF h1 conjI [OF q conjI [OF d conjI [OF h2 p]]]])
qed

text \<open>
  C8: a match recorded with rating updates disabled never consults the rating engine,
  records the delta 0 in every new result and changes no rating. First part: for a
  payload with one entry per submission, \<open>_save_result\<close> with \<open>update_scores = False\<close>
  returns, with the same store for every rating engine put in its place; the new results
  carry the submission ids and the delta 0, the derived rating of every participant is
  unchanged, and (where submission ids are unique) so is every list \<open>_get_elos\<close> returns.
  Second part: a recorded self-test match has one untested submission in every slot and is
  saved by exactly such a call.
\<close>

theorem unrated_match_keeps_ratings:
  "(length subs = length (submission_results result) \<longrightarrow>
      (\<exists>db'. save_result k init outcome_of now db subs result False = Inr db'
         \<and> (\<forall>engine. save_result_with engine init outcome_of now db subs result False = Inr db')
         \<and> submissions db' = submissions db
         \<and> (\<exists>new. results db' = results db @ new
                \<and> map res_submission_id new = map sub_id subs
                \<and> map points_delta new = replicate (length subs) 0)
         \<and> (\<forall>u. derived_rating init db' u = derived_rating init db u)
         \<and> (distinct (map sub_id (submissions db)) \<longrightarrow>
               (\<forall>ids. get_elos init db' ids = get_elos init db ids))))
   \<and> (run_test_match k init outcome_of now runner rnd player_count db = Inr (True, db'') \<longrightarrow>
      (\<exists>subs result.
           (0 < player_count \<longrightarrow>
              (\<exists>s \<in> set (get_all_untested_submissions db). subs = replicate (nat player_count) s))
         \<and> run_match runner subs = Inr result
         \<and> length subs = length (submission_results result)
         \<and> save_result k init outcome_of now db subs result False = Inr db''
         \<and> (\<forall>engine. run_test_match_with engine init outcome_of now runner rnd player_count db
                = Inr (True, db''))))"
proof (intro conjI impI)
  assume len: "length subs = length (submission_results result)"
  let ?db' = "commit_match now db (map sub_id subs) result (replicate (length subs) 0)"
  have e: "save_result_with engine init outcome_of now db subs result False = Inr ?db'" for engine
    by (rule save_result_no_update [OF len])
  show "\<exists>db'. save_result k init outcome_of now db subs result False = Inr db'
         \<and> (\<forall>engine. save_result_with engine init outcome_of now db subs result False = Inr db')
         \<and> submissions db' = submissions db
         \<and> (\<exists>new. results db' = results db @ new
                \<and> map res_submission_id new = map sub_id subs
                \<and> map points_delta new = replicate (length subs) 0)
         \<and> (\<forall>u. derived_rating init db' u = derived_rating init db u)
         \<and> (distinct (map sub_id (submissions db)) \<longrightarrow>
               (\<forall>ids. get_elos init db' ids = get_elos init db ids))"
    using e by (intro exI [of _ ?db']) (simp add: save_result_def unrated_commit [OF len])
next
  assume run: "run_test_match k init outcome_of now runner rnd player_count db = Inr (True, db'')"
  then obtain subs' result' where
    sel: "test_submissions rnd player_count db = Some subs'" and
    rm: "run_match runner subs' = Inr result'" and
    sv: "save_result_with (calculate_delta_scores k) init outcome_of now db subs' result' False = Inr db''"
    unfolding run_test_match_def using run_test_match_Inr by blast
  have len: "length subs' = length (submission_results result')"
  proof (rule ccontr)
    assume "length subs' \<noteq> length (submission_results result')"
    from save_result_ValueError [OF this] sv show False by simp
  qed
  have db'': "db'' = commit_match now db (map sub_id subs') result' (replicate (length subs') 0)"
    using sv save_result_no_update [OF len, of "calculate_delta_scores k" init outcome_of now db] by simp
  have any: "run_test_match_with engine init outcome_of now runner rnd player_count db = Inr (True, db'')"
    for engine
    using sel rm save_result_no_update [OF len, of engine init outcome_of now db]
    by (simp add: run_test_match_with_def db'')
  have pick: "0 < player_count \<longrightarrow>
      (\<exists>s \<in> set (get_all_untested_submissions db). subs' = replicate (nat player_count) s)"
    using test_submissions_Some [OF sel] by blast
  show "\<exists>subs result.
           (0 < player_count \<longrightarrow>
              (\<exists>s \<in> set (get_all_untested_submissions db). subs = replicate (nat player_count) s))
         \<and> run_match runner subs = Inr result
         \<and> length subs = length (submission_results result)
         \<and> save_result k init outcome_of now db subs result False = Inr db''
         \<and> (\<forall>engine. run_test_match_with engine init outcome_of now runner rnd player_count db
                = Inr (True, db''))"
    using pick rm len sv any unfolding save_result_def by blast
qed

theorem unrated_match_keeps_ratings_witness:
  "length (replicate 2 (submissions history_db ! 3)) = length (submission_results crashed_slots)
   \<and> (\<exists>db'. save_result 32 1000 outcome_values 3 history_db
               (replicate 2 (submissions history_db ! 3)) crashed_slots False = Inr db'
          \<and> map points_delta (drop 3 (results db')) = [0, 0]
          \<and> derived_rating 1000 db' 9 = derived_rating 1000 history_db 9)
   \<and> run_test_match 32 1000 outcome_values 3 (\<lambda>h. (200, crashed_slots)) 0 2 history_db
       = Inr (True, commit_match 3 history_db [4, 4] crashed_slots [0, 0])
   \<and> (\<exists>subs result.
          run_match (\<lambda>h. (200, crashed_slots)) subs = Inr result
        \<and> length subs = length (submission_results result)
        \<and> save_result 32 1000 outcome_values 3 history_db subs result False
            = Inr (commit_match 3 history_db [4, 4] crashed_slots [0, 0]))"
proof -
  let ?subs = "replicate 2 (submissions history_db ! 3)"
  let ?db = "commit_match 3 history_db [4, 4] crashed_slots [0, 0]"
  have h1: "length ?subs = length (submission_results crashed_slots)"
    by (simp add: crashed_slots_def)
  have h2: "run_test_match 32 1000 outcome_values 3 (\<lambda>h. (200, crashed_slots)) 0 2 history_db
      = Inr (True, ?db)"
    by (rule example_test_match)
  have l3: "length (results history_db) = 3" by (simp add: history_db_def)
  note T = unrated_match_keeps_ratings [where subs = ?subs and result = crashed_slots and k = 32
      and init = 1000 and outcome_of = outcome_values and now = 3 and db = history_db
      and runner = "\<lambda>h. (200, crashed_slots)" and rnd = 0 and player_count = 2 and db'' = ?db]
  from T h1 obtain db' new where
    a: "save_result 32 1000 outcome_values 3 history_db ?subs crashed_slots False = Inr db'" and
    b: "results db' = results history_db @ new" and
    c: "map points_delta new = replicate (length ?subs) 0" and
    d: "\<forall>u. derived_rating 1000 db' u = derived_rating 1000 history_db u"
    by blast
  have e: "map points_delta (drop 3 (results db')) = [0, 0]"
    using c by (simp add: b l3 numeral_2_eq_2)
  from T h2 obtain subs result where
    f: "run_match (\<lambda>h. (200, crashed_slots)) subs = Inr result"
       "length subs = length (submission_results result)"
       "save_result 32 1000 outcome_values 3 history_db subs result False = Inr ?db"
    by blast
  have c2: "\<exists>db'. save_result 32 1000 outcome_values 3 history_db ?subs crashed_slots False = Inr db'
          \<and> map points_delta (drop 3 (results db')) = [0, 0]
          \<and> derived_rating 1000 db' 9 = derived_rating 1000 history_db 9"
    using a e d by (intro exI [of _ db']) simp
  have c4: "\<exists>subs result.
          run_match (\<lambda>h. (200, crashed_slots)) subs = Inr result
        \<and> length subs = length (submission_results result)
        \<and> save_result 32 1000 outcome_values 3 history_db subs result False = Inr ?db"
    using f by (intro exI [of _ subs] exI [of _ result]) simp
  show ?thesis by (rule conjI [OF h1 conjI [OF c2 conjI [OF h2 c4]]])
qed

end
